theory Spec2Isabelle
  imports Complex_Main "HOL-Library.List_Lexorder" "HOL-Library.Char_ord"
    "HOL-Library.Log_Nat" "HOL-Library.Multiset" "HOL-Library.Monad_Syntax"
begin

section \<open>JavaScript numbers\<close>

text \<open>
  A JavaScript number is an IEEE-754 double. A finite double is modelled by the real
  number it denotes, and every arithmetic operation of the code by the exact operation
  followed by the rounding \<open>fl\<close> to the nearest double, ties to even: around \<open>x\<close> with
  \<open>2^e \<le> |x| < 2^(e+1)\<close> the doubles are the multiples of \<open>2^(e-52)\<close>, and the
  multiples of \<open>2^-1074\<close> below \<open>2^-1022\<close>. A decimal literal of the code, such as
  \<open>0.1\<close>, is \<open>fl\<close> of its decimal value. Comparisons, \<open>Math.min\<close>, \<open>Math.max\<close> and
  assignments do not round.
\<close>

definition round_even :: "real \<Rightarrow> int" where
  "round_even x =
     (let f = \<lfloor>x\<rfloor>; d = x - of_int f
      in if d < 1 / 2 then f else if 1 / 2 < d then f + 1 else if even f then f else f + 1)"

text \<open>The binary exponent of a number that is not zero.\<close>

definition expo :: "real \<Rightarrow> int" where
  "expo x = (if 1 \<le> \<bar>x\<bar> then bitlen \<lfloor>\<bar>x\<bar>\<rfloor> - 1 else - bitlen (\<lceil>1 / \<bar>x\<bar>\<rceil> - 1))"

definition fl :: "real \<Rightarrow> real" where
  "fl x =
     (if x = 0 then 0
      else let q = 2 powi (max (expo x) (- 1022) - 52)
           in of_int (round_even (x / q)) * q)"

text \<open>
  The result of an operation whose exact value is \<open>x\<close>. When the rounded value is not a
  finite double JavaScript goes on with \<open>Infinity\<close> (or, after a division of zero by
  zero, \<open>NaN\<close>); the model stops there with \<open>None\<close>, so the functions below say what the
  code does as long as every number it computes is finite.
\<close>

definition js_num :: "real \<Rightarrow> real option" where
  "js_num x = (if \<bar>fl x\<bar> < 2 ^ 1024 then Some (fl x) else None)"


definition fadd :: "real \<Rightarrow> real \<Rightarrow> real option" where
  "fadd a b = js_num (a + b)"

definition fsub :: "real \<Rightarrow> real \<Rightarrow> real option" where
  "fsub a b = js_num (a - b)"

definition fmul :: "real \<Rightarrow> real \<Rightarrow> real option" where
  "fmul a b = js_num (a * b)"

definition fdiv :: "real \<Rightarrow> real \<Rightarrow> real option" where
  "fdiv a b = (if b = 0 then None else js_num (a / b))"

text \<open>
  \<open>Math.floor\<close> and \<open>Math.round\<close> are exact on a finite double: the result is an integer
  that is a double again. \<open>Math.round\<close> rounds a half towards \<open>+\<infinity>\<close>.
\<close>

definition Math_floor :: "real \<Rightarrow> real" where
  "Math_floor x = of_int \<lfloor>x\<rfloor>"

definition Math_round :: "real \<Rightarrow> real" where
  "Math_round x = of_int \<lfloor>x + 1 / 2\<rfloor>"

text \<open>
  The remainder \<open>x % y\<close> of finite doubles, \<open>y\<close> not zero: the quotient is truncated
  towards zero and the result is exact.
\<close>

definition js_rem :: "real \<Rightarrow> real \<Rightarrow> real" where
  "js_rem x y = x - y * of_int (if x / y < 0 then \<lceil>x / y\<rceil> else \<lfloor>x / y\<rfloor>)"

section \<open>Other JavaScript values\<close>

text \<open>
  The argument of \<open>setTempo\<close> can be any number, also \<open>NaN\<close> and the infinities; there the
  non-finite cases are written out.
\<close>

datatype jsnum = Num real | PosInf | NegInf | NaN

text \<open>The order of \<open>Math.min\<close> / \<open>Math.max\<close> on operands that are not \<open>NaN\<close>.\<close>

fun js_le :: "jsnum \<Rightarrow> jsnum \<Rightarrow> bool" where
  "js_le NegInf _ = True"
| "js_le _ PosInf = True"
| "js_le (Num x) (Num y) = (x \<le> y)"
| "js_le _ _ = False"

definition Math_min :: "jsnum \<Rightarrow> jsnum \<Rightarrow> jsnum" where
  "Math_min a b = (if a = NaN \<or> b = NaN then NaN else if js_le a b then a else b)"

definition Math_max :: "jsnum \<Rightarrow> jsnum \<Rightarrow> jsnum" where
  "Math_max a b = (if a = NaN \<or> b = NaN then NaN else if js_le a b then b else a)"

text \<open>\<open>x || d\<close> on a number that is not \<open>NaN\<close>: \<open>0\<close> is falsy.\<close>

definition num_or :: "real \<Rightarrow> real \<Rightarrow> real" where
  "num_or x d = (if x = 0 then d else x)"

text \<open>\<open>s || d\<close> on a string: the empty string is falsy.\<close>

definition str_or :: "string \<Rightarrow> string \<Rightarrow> string" where
  "str_or s d = (if s = [] then d else s)"

section \<open>AudioClip\<close>

text \<open>
  An identifier \<open>clip_${Date.now()}_${++clipCounter}\<close> (or \<open>track_...\<close>) is the pair of
  the clock reading and the counter.
\<close>

type_synonym ident = "nat \<times> nat"

text \<open>
  A decoded \<open>AudioBuffer\<close>: the identity of the shared object and its duration. The
  samples are not modelled, and neither is the waveform cache of a clip.
\<close>

record audio_buffer =
  buf_ref :: nat
  buf_duration :: real

record AudioClip =
  clip_id :: ident
  clip_name :: string
  audioBuffer :: "audio_buffer option"
  trackId :: "ident option"
  startTime :: real
  offset :: real
  duration :: real
  gain :: real
  selected :: bool

text \<open>The \<open>options\<close> object of the constructor; \<open>None\<close> is an absent property.\<close>

record clip_options =
  opt_audioBuffer :: "audio_buffer option"
  opt_name :: "string option"
  opt_startTime :: "real option"
  opt_offset :: "real option"
  opt_duration :: "real option"

text \<open>
  \<open>new AudioClip(options)\<close>, given the reading of \<open>Date.now()\<close> and the module counter
  \<open>clipCounter\<close>; returns the clip and the incremented counter.
\<close>

definition AudioClip_new :: "clip_options \<Rightarrow> nat \<Rightarrow> nat \<Rightarrow> AudioClip \<times> nat" where
  "AudioClip_new options now clipCounter =
     (\<lparr> clip_id = (now, clipCounter + 1),
        clip_name = (case opt_name options of None \<Rightarrow> ''Audio Clip''
                     | Some n \<Rightarrow> str_or n ''Audio Clip''),
        audioBuffer = opt_audioBuffer options,
        trackId = None,
        startTime = (case opt_startTime options of None \<Rightarrow> 0 | Some t \<Rightarrow> num_or t 0),
        offset = (case opt_offset options of None \<Rightarrow> 0 | Some t \<Rightarrow> num_or t 0),
        duration =
          (let dflt = (case opt_audioBuffer options of None \<Rightarrow> 0
                       | Some b \<Rightarrow> buf_duration b)
           in case opt_duration options of None \<Rightarrow> dflt | Some d \<Rightarrow> num_or d dflt),
        gain = 1.0,
        selected = False \<rparr>,
      clipCounter + 1)"

definition getOriginalDuration :: "AudioClip \<Rightarrow> real" where
  "getOriginalDuration c = (case audioBuffer c of None \<Rightarrow> 0 | Some b \<Rightarrow> buf_duration b)"

definition setStartTime :: "real \<Rightarrow> AudioClip \<Rightarrow> AudioClip" where
  "setStartTime time c = c\<lparr>startTime := max 0 time\<rparr>"

definition move :: "real \<Rightarrow> AudioClip \<Rightarrow> AudioClip option" where
  "move deltaTime c = do {
     t \<leftarrow> fadd (startTime c) deltaTime;
     Some (setStartTime t c)
   }"

text \<open>
  \<open>setDuration\<close>: \<open>Math.max(0.1, Math.min(maxDuration, duration))\<close>. When the
  subtraction overflows, \<open>maxDuration\<close> is \<open>+Infinity\<close> or \<open>-Infinity\<close> and the result
  is still finite.
\<close>

definition setDuration :: "real \<Rightarrow> AudioClip \<Rightarrow> AudioClip" where
  "setDuration d c =
     c\<lparr>duration :=
         (case fsub (getOriginalDuration c) (offset c) of
            Some maxDuration \<Rightarrow> max (fl (1 / 10)) (min maxDuration d)
          | None \<Rightarrow> (if offset c < getOriginalDuration c then max (fl (1 / 10)) d
                     else fl (1 / 10)))\<rparr>"

text \<open>The rename of the timeline's inline editor: an empty or unchanged name is ignored.\<close>

definition rename_clip :: "string \<Rightarrow> AudioClip \<Rightarrow> AudioClip" where
  "rename_clip newName c =
     (if newName \<noteq> [] \<and> newName \<noteq> clip_name c then c\<lparr>clip_name := newName\<rparr> else c)"

definition clone :: "AudioClip \<Rightarrow> nat \<Rightarrow> nat \<Rightarrow> AudioClip \<times> nat" where
  "clone c now clipCounter =
     AudioClip_new
       \<lparr> opt_audioBuffer = audioBuffer c,
         opt_name = Some (clip_name c),
         opt_startTime = Some (startTime c),
         opt_offset = Some (offset c),
         opt_duration = Some (duration c) \<rparr>
       now clipCounter"

text \<open>
  What the constructor establishes and every mutator of the clip keeps: the name is not
  empty, and a zero duration is the duration of the buffer (or there is no buffer).
\<close>

definition clip_inv :: "AudioClip \<Rightarrow> bool" where
  "clip_inv c = (clip_name c \<noteq> [] \<and> (duration c = 0 \<longrightarrow> getOriginalDuration c = 0))"

section \<open>Track\<close>

text \<open>
  \<open>gainNode\<close> is \<open>null\<close> (\<open>None\<close>) until the engine binds a gain node; \<open>Some g\<close> is a
  bound node whose \<open>gain.value\<close> is \<open>g\<close>. The colour of a track is left out.
\<close>

record Track =
  track_id :: ident
  track_name :: string
  volume :: real
  pan :: real
  muted :: bool
  solo :: bool
  clips :: "AudioClip list"
  gainNode :: "real option"

text \<open>
  \<open>this.clips.sort((a, b) => a.startTime - b.startTime)\<close>: \<open>Array.prototype.sort\<close> is a
  stable sort by the comparator, here the ascending order of \<open>startTime\<close>.
\<close>

definition sortClips :: "Track \<Rightarrow> Track" where
  "sortClips t = t\<lparr>clips := sort_key startTime (clips t)\<rparr>"

text \<open>
  \<open>addClip\<close> writes \<open>trackId\<close> into the clip object itself, then pushes and sorts. The
  result is the track and the clip object as the caller now sees it.
\<close>

definition addClip :: "AudioClip \<Rightarrow> Track \<Rightarrow> Track \<times> AudioClip" where
  "addClip clip t =
     (let clip' = clip\<lparr>trackId := Some (track_id t)\<rparr>;
          t' = t\<lparr>clips := clips t @ [clip']\<rparr>
      in (sortClips t', clip'))"

definition setVolume :: "real \<Rightarrow> Track \<Rightarrow> Track" where
  "setVolume v t =
     (let t' = t\<lparr>volume := max 0 (min 1 v)\<rparr>
      in case gainNode t' of
           None \<Rightarrow> t'
         | Some _ \<Rightarrow> t'\<lparr>gainNode := Some (if muted t' then 0 else volume t')\<rparr>)"

definition setMuted :: "bool \<Rightarrow> Track \<Rightarrow> Track" where
  "setMuted m t =
     (let t' = t\<lparr>muted := m\<rparr>
      in case gainNode t' of
           None \<Rightarrow> t'
         | Some _ \<Rightarrow> t'\<lparr>gainNode := Some (if muted t' then 0 else volume t')\<rparr>)"

definition toggleMute :: "Track \<Rightarrow> Track" where
  "toggleMute t = setMuted (\<not> muted t) t"

definition setSolo :: "bool \<Rightarrow> Track \<Rightarrow> Track" where
  "setSolo s t = t\<lparr>solo := s\<rparr>"

definition toggleSolo :: "Track \<Rightarrow> Track" where
  "toggleSolo t = setSolo (\<not> solo t) t"

section \<open>Mute and solo (TrackList.handleSoloLogic)\<close>

text \<open>
  The mix rule in the spec's words: the gain a track should play at, given all tracks.
\<close>

definition effectiveGain :: "Track list \<Rightarrow> Track \<Rightarrow> real" where
  "effectiveGain ts track =
     (if list_ex solo ts
      then (if muted track then 0 else (if solo track then volume track else 0))
      else (if muted track then 0 else volume track))"

text \<open>
  \<open>handleSoloLogic\<close> of TrackList.js, lines 165-181, over \<open>audioEngine.tracks\<close>: it
  writes \<open>gain.value\<close> of every track that has a gain node.
\<close>

definition handleSoloLogic :: "Track list \<Rightarrow> Track list" where
  "handleSoloLogic ts =
     (let hasSolo = list_ex solo ts
      in map (\<lambda>track.
            if hasSolo
            then (case gainNode track of
                    None \<Rightarrow> track
                  | Some _ \<Rightarrow>
                      track\<lparr>gainNode :=
                        Some (if muted track then 0
                              else (if solo track then volume track else 0))\<rparr>)
            else (case gainNode track of
                    None \<Rightarrow> track
                  | Some _ \<Rightarrow>
                      track\<lparr>gainNode := Some (if muted track then 0 else volume track)\<rparr>))
          ts)"

text \<open>
  The second \<open>handleSoloLogic\<close> in the source, TrackList.js lines 367-383: with a solo
  active it writes \<open>track.solo ? track.volume : 0\<close> and does not read \<open>muted\<close>.
\<close>

definition handleSoloLogic_alt :: "Track list \<Rightarrow> Track list" where
  "handleSoloLogic_alt ts =
     (let hasSolo = list_ex solo ts
      in map (\<lambda>track.
            if hasSolo
            then (case gainNode track of
                    None \<Rightarrow> track
                  | Some _ \<Rightarrow>
                      track\<lparr>gainNode := Some (if solo track then volume track else 0)\<rparr>)
            else (case gainNode track of
                    None \<Rightarrow> track
                  | Some _ \<Rightarrow>
                      track\<lparr>gainNode := Some (if muted track then 0 else volume track)\<rparr>))
          ts)"

section \<open>AudioEngine\<close>

text \<open>
  A started \<open>AudioBufferSourceNode\<close>: the track whose gain node it is connected to, its
  buffer, and the three arguments of \<open>source.start(when, offset, duration)\<close>.
\<close>

record source =
  src_track :: ident
  src_buffer :: "audio_buffer option"
  src_when :: real
  src_offset :: real
  src_duration :: real

datatype notification = TimeUpdate real | PlayStateChange string

text \<open>
  The engine object. \<open>audioContext\<close> says whether the context exists; its clock
  \<open>audioContext.currentTime\<close> is an input of every operation that reads it (\<open>now\<close>).
  \<open>onTimeUpdate\<close> and \<open>onPlayStateChange\<close> say whether a callback is installed, and
  \<open>notified\<close> lists the calls made to the callbacks so far. \<open>animationFrameId\<close> says
  whether a frame of the update loop is requested. The master gain node is left out.
\<close>

record AudioEngine =
  audioContext :: bool
  isPlaying :: bool
  isPaused :: bool
  eng_startTime :: real
  pauseTime :: real
  tempo :: jsnum
  currentTime :: real
  tracks :: "Track list"
  activeSources :: "source list"
  animationFrameId :: bool
  onTimeUpdate :: bool
  onPlayStateChange :: bool
  notified :: "notification list"

definition AudioEngine_new :: AudioEngine where
  "AudioEngine_new =
     \<lparr> audioContext = False, isPlaying = False, isPaused = False, eng_startTime = 0,
       pauseTime = 0, tempo = Num 120, currentTime = 0, tracks = [], activeSources = [],
       animationFrameId = False, onTimeUpdate = False, onPlayStateChange = False,
       notified = [] \<rparr>"

definition init :: "AudioEngine \<Rightarrow> AudioEngine" where
  "init s = (if audioContext s then s else s\<lparr>audioContext := True\<rparr>)"


definition notifyState :: "string \<Rightarrow> AudioEngine \<Rightarrow> AudioEngine" where
  "notifyState x s =
     (if onPlayStateChange s then s\<lparr>notified := notified s @ [PlayStateChange x]\<rparr> else s)"

definition stopAllSources :: "AudioEngine \<Rightarrow> AudioEngine" where
  "stopAllSources s = s\<lparr>activeSources := []\<rparr>"

text \<open>
  The operations below that read the clock, \<open>this.audioContext.currentTime\<close>, throw a
  \<open>TypeError\<close> when there is no context; that too is \<open>None\<close>.

  The body of the inner \<open>forEach\<close> of \<open>schedulePlayback\<close> for one clip: the sources it
  starts and pushes (none or one). A source is connected to \<open>track.gainNode\<close>, which
  \<open>addTrack\<close> has bound for every track of the engine; the source records the track.
\<close>

definition schedule_clip ::
  "real \<Rightarrow> real \<Rightarrow> Track \<Rightarrow> AudioClip \<Rightarrow> source list option" where
  "schedule_clip now currentPlayTime track clip = do {
     clipEnd \<leftarrow> fadd (startTime clip) (duration clip);
     if clipEnd < currentPlayTime then Some []
     else do {
       (when, off) \<leftarrow>
         (if startTime clip \<ge> currentPlayTime
          then do {
            ahead \<leftarrow> fsub (startTime clip) currentPlayTime;
            w \<leftarrow> fadd now ahead;
            Some (w, num_or (offset clip) 0)
          }
          else do {
            played \<leftarrow> fsub currentPlayTime (startTime clip);
            off \<leftarrow> fadd (num_or (offset clip) 0) played;
            Some (now, off)
          });
       skipped \<leftarrow> fsub off (num_or (offset clip) 0);
       dur \<leftarrow> fsub (duration clip) skipped;
       Some (if dur > 0
             then [\<lparr> src_track = track_id track, src_buffer = audioBuffer clip,
                      src_when = when, src_offset = off, src_duration = dur \<rparr>]
             else [])
     }
   }"

text \<open>The inner \<open>forEach\<close>, over the clips of one track.\<close>

fun schedule_clips ::
  "real \<Rightarrow> real \<Rightarrow> Track \<Rightarrow> AudioClip list \<Rightarrow> source list option" where
  "schedule_clips now currentPlayTime track [] = Some []"
| "schedule_clips now currentPlayTime track (clip # rest) = do {
     started \<leftarrow> schedule_clip now currentPlayTime track clip;
     more \<leftarrow> schedule_clips now currentPlayTime track rest;
     Some (started @ more)
   }"

text \<open>The body of the outer \<open>forEach\<close> for one track.\<close>

definition schedule_track :: "real \<Rightarrow> real \<Rightarrow> Track \<Rightarrow> source list option" where
  "schedule_track now currentPlayTime track =
     (if muted track then Some []
      else schedule_clips now currentPlayTime track (clips track))"

text \<open>The outer \<open>forEach\<close>, over the tracks of the engine.\<close>

fun schedule_tracks :: "real \<Rightarrow> real \<Rightarrow> Track list \<Rightarrow> source list option" where
  "schedule_tracks now currentPlayTime [] = Some []"
| "schedule_tracks now currentPlayTime (track # rest) = do {
     started \<leftarrow> schedule_track now currentPlayTime track;
     more \<leftarrow> schedule_tracks now currentPlayTime rest;
     Some (started @ more)
   }"

definition schedulePlayback :: "real \<Rightarrow> AudioEngine \<Rightarrow> AudioEngine option" where
  "schedulePlayback now s =
     (let s1 = stopAllSources s
      in if \<not> audioContext s1 then None
         else do {
           currentPlayTime \<leftarrow> fsub now (eng_startTime s1);
           started \<leftarrow> schedule_tracks now currentPlayTime (tracks s1);
           Some (s1\<lparr>activeSources := activeSources s1 @ started\<rparr>)
         })"



definition stopTimeUpdate :: "AudioEngine \<Rightarrow> AudioEngine" where
  "stopTimeUpdate s = (if animationFrameId s then s\<lparr>animationFrameId := False\<rparr> else s)"

text \<open>
  \<open>play()\<close> is an \<open>async\<close> function: the call runs the guard and \<open>this.init()\<close>, which
  creates the context when there is none, and returns at \<open>await\<close>; the rest of the body
  runs later, as a continuation, and whatever the caller does after the call runs
  before it. \<open>play_begin\<close> is the call: the state it leaves, and whether a continuation is
  pending. \<open>play_resume\<close> is the continuation, \<open>now\<close> being the clock when it runs.
\<close>

definition play_begin :: "AudioEngine \<Rightarrow> AudioEngine \<times> bool" where
  "play_begin s = (if isPlaying s \<and> \<not> isPaused s then (s, False) else (init s, True))"



definition pause :: "real \<Rightarrow> AudioEngine \<Rightarrow> AudioEngine option" where
  "pause now s =
     (if \<not> isPlaying s \<or> isPaused s then Some s
      else if \<not> audioContext s then None
      else do {
        let s1 = s\<lparr>isPaused := True\<rparr>;
        t \<leftarrow> fsub now (eng_startTime s1);
        let s2 = s1\<lparr>pauseTime := t\<rparr>;
        let s3 = stopAllSources s2;
        let s4 = stopTimeUpdate s3;
        Some (notifyState ''paused'' s4)
      })"



definition setTempo :: "jsnum \<Rightarrow> AudioEngine \<Rightarrow> AudioEngine" where
  "setTempo bpm s = s\<lparr>tempo := Math_max (Num 20) (Math_min (Num 300) bpm)\<rparr>"

text \<open>
  \<open>addTrack(track)\<close>: the context exists after \<open>init()\<close>; the track gets a gain node
  whose value is its volume.
\<close>

definition addTrack :: "Track \<Rightarrow> AudioEngine \<Rightarrow> AudioEngine" where
  "addTrack track s =
     (let s1 = init s
      in s1\<lparr>tracks := tracks s1 @ [track\<lparr>gainNode := Some (volume track)\<rparr>]\<rparr>)"

section \<open>Time display and grid\<close>

definition digit_char :: "nat \<Rightarrow> char" where
  "digit_char d = ''0123456789'' ! d"

text \<open>\<open>String(n)\<close> for an integer: its decimal digits, with a minus sign when negative.\<close>

fun String_nat :: "nat \<Rightarrow> string" where
  "String_nat n =
     (if n < 10 then [digit_char n] else String_nat (n div 10) @ [digit_char (n mod 10)])"

declare String_nat.simps [simp del]

definition String_int :: "int \<Rightarrow> string" where
  "String_int i = (if i < 0 then CHR ''-'' # String_nat (nat (- i)) else String_nat (nat i))"

definition padStart :: "nat \<Rightarrow> char \<Rightarrow> string \<Rightarrow> string" where
  "padStart n c s = replicate (n - length s) c @ s"

text \<open>
  \<open>String(x)\<close> for a number that is an integer below \<open>10^21\<close> in size (beyond that, and
  for a number with a fraction, the string is not a plain digit sequence and the model
  stops).
\<close>

definition String_num :: "real \<Rightarrow> string option" where
  "String_num x =
     (if x = of_int \<lfloor>x\<rfloor> \<and> \<bar>x\<bar> < 10 ^ 21 then Some (String_int \<lfloor>x\<rfloor>) else None)"

text \<open>
  The first two lines of \<open>formatTime(seconds)\<close>, reading \<open>this.tempo\<close> as the finite
  number \<open>tmp\<close>.
\<close>

definition totalBeats :: "real \<Rightarrow> real \<Rightarrow> real option" where
  "totalBeats tmp seconds = do {
     beatsPerSecond \<leftarrow> fdiv tmp 60;
     fmul seconds beatsPerSecond
   }"

definition formatTime :: "real \<Rightarrow> real \<Rightarrow> string option" where
  "formatTime tmp seconds = do {
     total \<leftarrow> totalBeats tmp seconds;
     quarter \<leftarrow> fdiv total 4;
     bars \<leftarrow> fadd (Math_floor quarter) 1;
     beats \<leftarrow> fadd (Math_floor (js_rem total 4)) 1;
     thousandths \<leftarrow> fmul (js_rem total 1) 1000;
     let ticks = Math_floor thousandths;
     barsText \<leftarrow> String_num bars;
     beatsText \<leftarrow> String_num beats;
     ticksText \<leftarrow> String_num ticks;
     Some (padStart 3 CHR ''0'' barsText @ '':''
           @ padStart 2 CHR ''0'' beatsText @ '':''
           @ padStart 3 CHR ''0'' ticksText)
   }"

text \<open>
  The three numbers that \<open>formatTime\<close> prints, as functions of the computed
  \<open>totalBeats\<close> when it is not negative (lemma \<open>formatTime_parts\<close> below relates them
  to \<open>formatTime\<close>).
\<close>

definition fmt_bars :: "real \<Rightarrow> nat" where
  "fmt_bars b = nat (\<lfloor>b / 4\<rfloor> + 1)"

definition fmt_beats :: "real \<Rightarrow> nat" where
  "fmt_beats b = nat (\<lfloor>b\<rfloor> - 4 * \<lfloor>b / 4\<rfloor> + 1)"

definition fmt_ticks :: "real \<Rightarrow> nat" where
  "fmt_ticks b = nat \<lfloor>fl ((b - of_int \<lfloor>b\<rfloor>) * 1000)\<rfloor>"

text \<open>
  \<open>Timeline.snapTime(time)\<close>, reading \<open>audioEngine.tempo\<close> and \<open>this.gridSize\<close> as the
  finite numbers \<open>tmp\<close> and \<open>gridSize\<close> (the constructor of the timeline sets
  \<open>gridSize = 0.25\<close>).
\<close>

definition snapTime :: "real \<Rightarrow> real \<Rightarrow> real \<Rightarrow> real option" where
  "snapTime tmp gridSize time = do {
     secondsPerBeat \<leftarrow> fdiv 60 tmp;
     snapInterval \<leftarrow> fmul secondsPerBeat gridSize;
     steps \<leftarrow> fdiv time snapInterval;
     fmul (Math_round steps) snapInterval
   }"

text \<open>
  The snap of the spec, \<open>round(t / interval) * interval\<close> with
  \<open>interval = (60 / tempo) * gridFraction\<close>, every operation giving the nearest double.
\<close>

definition snap_spec :: "real \<Rightarrow> real \<Rightarrow> real \<Rightarrow> real" where
  "snap_spec tmp gridFraction t =
     (let interval = fl (fl (60 / tmp) * gridFraction)
      in fl (Math_round (fl (t / interval)) * interval))"

section \<open>Scenario values\<close>

text \<open>
  The clip of the spec's scheduling scenarios (\<open>startTime=2, offset=0, duration=3\<close>), the
  three tracks of its mute/solo matrix, and an engine holding them. The tracks have the
  default volume 0.8, written \<open>4 / 5\<close>: a volume is stored and copied, never computed
  with.
\<close>

definition clip0 :: AudioClip where
  "clip0 = \<lparr> clip_id = (1000, 1), clip_name = ''Audio Clip'',
             audioBuffer = Some \<lparr> buf_ref = 1, buf_duration = 3 \<rparr>, trackId = Some (900, 3),
             startTime = 2, offset = 0, duration = 3, gain = 1, selected = False \<rparr>"

definition trackA :: Track where
  "trackA = \<lparr> track_id = (900, 1), track_name = ''Track 1'', volume = 4 / 5, pan = 0,
              muted = False, solo = True, clips = [], gainNode = Some (4 / 5) \<rparr>"

definition trackB :: Track where
  "trackB = \<lparr> track_id = (900, 2), track_name = ''Track 2'', volume = 4 / 5, pan = 0,
              muted = True, solo = False, clips = [], gainNode = Some 0 \<rparr>"

definition trackC :: Track where
  "trackC = \<lparr> track_id = (900, 3), track_name = ''Track 3'', volume = 4 / 5, pan = 0,
              muted = False, solo = False, clips = [clip0], gainNode = Some (4 / 5) \<rparr>"

definition engine0 :: AudioEngine where
  "engine0 = AudioEngine_new\<lparr>audioContext := True, onTimeUpdate := True,
               tracks := [trackA, trackB, trackC]\<rparr>"


text \<open>
  An engine whose muted track holds the clip too, with the epoch at device time 10.
\<close>

definition engine2 :: AudioEngine where
  "engine2 = engine0\<lparr>eng_startTime := 10,
               tracks := [trackA, trackB\<lparr>clips := [clip0]\<rparr>, trackC]\<rparr>"



section \<open>Rounding: results\<close>

lemma round_even_of_int: "round_even (of_int z) = z"
  by (simp add: round_even_def)

lemma round_even_bounds: "\<lfloor>x\<rfloor> \<le> round_even x" "round_even x \<le> \<lfloor>x\<rfloor> + 1"
  by (simp_all add: round_even_def Let_def)

lemma round_even_err: "\<bar>of_int (round_even x) - x\<bar> \<le> 1 / 2"
proof -
  have "of_int \<lfloor>x\<rfloor> \<le> x" "x < of_int \<lfloor>x\<rfloor> + 1"
    by linarith+
  then show ?thesis
    unfolding round_even_def Let_def by (auto simp: abs_le_iff)
qed

lemma round_even_mono:
  assumes "x \<le> y"
  shows "round_even x \<le> round_even y"
proof (cases "\<lfloor>x\<rfloor> = \<lfloor>y\<rfloor>")
  case True
  then have "x - of_int \<lfloor>x\<rfloor> \<le> y - of_int \<lfloor>y\<rfloor>"
    using assms by simp
  then show ?thesis
    unfolding round_even_def Let_def True by auto
next
  case False
  then have "\<lfloor>x\<rfloor> + 1 \<le> \<lfloor>y\<rfloor>"
    using floor_mono[OF assms] by linarith
  then show ?thesis
    using round_even_bounds(2)[of x] round_even_bounds(1)[of y] by linarith
qed

lemma expo_bounds:
  assumes "x \<noteq> 0"
  shows "2 powi expo x \<le> \<bar>x\<bar>" and "\<bar>x\<bar> < 2 powi (expo x + 1)"
proof -
  have "2 powi expo x \<le> \<bar>x\<bar> \<and> \<bar>x\<bar> < 2 powi (expo x + 1)"
  proof (cases "1 \<le> \<bar>x\<bar>")
    case True
    define n where "n = \<lfloor>\<bar>x\<bar>\<rfloor>"
    have n: "0 < n"
      using True unfolding n_def by linarith
    define b where "b = bitlen n"
    have bb: "2 ^ nat (b - 1) \<le> n" "n < 2 ^ nat b"
      using bitlen_bounds[OF n] by (simp_all add: b_def)
    have b1: "1 \<le> b"
    proof (rule ccontr)
      assume "\<not> 1 \<le> b"
      then have "nat b = 0" by simp
      with bb(2) n show False by simp
    qed
    have e: "expo x = b - 1"
      using True by (simp add: expo_def b_def n_def)
    have "(2::real) powi (b - 1) = of_int (2 ^ nat (b - 1))"
      using b1 by (simp add: power_int_nonneg_exp)
    also have "\<dots> \<le> of_int n"
      using bb(1) by (simp only: of_int_le_iff)
    also have "\<dots> \<le> \<bar>x\<bar>"
      unfolding n_def by linarith
    finally have lo: "2 powi (b - 1) \<le> \<bar>x\<bar>" .
    have "\<bar>x\<bar> < of_int (n + 1)"
      unfolding n_def by linarith
    also have "\<dots> \<le> of_int (2 ^ nat b)"
      using bb(2) by (simp only: of_int_le_iff)
    also have "\<dots> = (2::real) powi b"
      using b1 by (simp add: power_int_nonneg_exp)
    finally have hi: "\<bar>x\<bar> < 2 powi b" .
    show ?thesis
      using lo hi by (simp add: e)
  next
    case False
    define y where "y = 1 / \<bar>x\<bar>"
    have x0: "0 < \<bar>x\<bar>" "\<bar>x\<bar> < 1"
      using assms False by simp_all
    have y1: "1 < y"
      using x0 by (simp add: y_def)
    define m where "m = \<lceil>y\<rceil> - 1"
    have m: "0 < m"
      using y1 unfolding m_def by linarith
    define b where "b = bitlen m"
    have bb: "2 ^ nat (b - 1) \<le> m" "m < 2 ^ nat b"
      using bitlen_bounds[OF m] by (simp_all add: b_def)
    have b1: "1 \<le> b"
    proof (rule ccontr)
      assume "\<not> 1 \<le> b"
      then have "nat b = 0" by simp
      with bb(2) m show False by simp
    qed
    have e: "expo x = - b"
      using False by (simp add: expo_def b_def m_def y_def)
    have "y \<le> of_int (m + 1)"
      unfolding m_def by linarith
    also have "\<dots> \<le> of_int (2 ^ nat b)"
      using bb(2) by (simp only: of_int_le_iff)
    also have "\<dots> = (2::real) powi b"
      using b1 by (simp add: power_int_nonneg_exp)
    finally have "y \<le> 2 powi b" .
    then have "1 / (2 powi b) \<le> \<bar>x\<bar>"
      using x0 unfolding y_def by (simp add: field_simps)
    then have lo: "2 powi (- b) \<le> \<bar>x\<bar>"
      by (simp add: power_int_minus_divide)
    have "(2::real) powi (b - 1) = of_int (2 ^ nat (b - 1))"
      using b1 by (simp add: power_int_nonneg_exp)
    also have "\<dots> \<le> of_int m"
      using bb(1) by (simp only: of_int_le_iff)
    also have "\<dots> < y"
      unfolding m_def by linarith
    finally have "2 powi (b - 1) < y" .
    then have "\<bar>x\<bar> < 1 / (2 powi (b - 1))"
      using x0 unfolding y_def by (simp add: field_simps)
    then have hi: "\<bar>x\<bar> < 2 powi (- b + 1)"
      using power_int_minus_divide[of "2::real" "b - 1"] by simp
    show ?thesis
      using lo hi by (simp add: e)
  qed
  then show "2 powi expo x \<le> \<bar>x\<bar>" and "\<bar>x\<bar> < 2 powi (expo x + 1)"
    by simp_all
qed

lemma pow2_less_imp: "(2::real) powi a < 2 powi b \<Longrightarrow> a < b"
proof (rule ccontr)
  assume h: "(2::real) powi a < 2 powi b" and "\<not> a < b"
  then have "b \<le> a" by simp
  then have "(2::real) powi b \<le> 2 powi a"
    by (intro power_int_increasing) simp_all
  with h show False by simp
qed

lemma expo_unique:
  assumes "2 powi e \<le> \<bar>x\<bar>" and "\<bar>x\<bar> < 2 powi (e + 1)"
  shows "expo x = e"
proof -
  have "(0::real) < 2 powi e"
    by simp
  with assms(1) have "0 < \<bar>x\<bar>"
    by linarith
  then have x: "x \<noteq> 0"
    by simp
  have "(2::real) powi expo x < 2 powi (e + 1)"
    using expo_bounds(1)[OF x] assms(2) by linarith
  then have a: "expo x < e + 1"
    by (rule pow2_less_imp)
  have "(2::real) powi e < 2 powi (expo x + 1)"
    using expo_bounds(2)[OF x] assms(1) by linarith
  then have "e < expo x + 1"
    by (rule pow2_less_imp)
  with a show ?thesis
    by linarith
qed

lemma fl_eval:
  assumes "2 powi e \<le> \<bar>x\<bar>" and "\<bar>x\<bar> < 2 powi (e + 1)"
  shows "fl x = of_int (round_even (x / 2 powi (max e (- 1022) - 52))) * 2 powi (max e (- 1022) - 52)"
proof -
  have "(0::real) < 2 powi e"
    by simp
  with assms(1) have "0 < \<bar>x\<bar>"
    by linarith
  then have x: "x \<noteq> 0"
    by simp
  show ?thesis
    using x by (simp add: fl_def expo_unique[OF assms] Let_def)
qed

lemma round_even_minus: "round_even (- x) = - round_even x"
proof (cases "x = of_int \<lfloor>x\<rfloor>")
  case True
  then obtain z where "x = of_int z" ..
  then have "- x = of_int (- z)" by simp
  then show ?thesis
    using \<open>x = of_int z\<close> by (simp only: round_even_of_int)
next
  case False
  then have f: "\<lfloor>- x\<rfloor> = - \<lfloor>x\<rfloor> - 1"
    by (simp add: floor_minus ceiling_altdef)
  have d: "of_int \<lfloor>x\<rfloor> < x" "x < of_int \<lfloor>x\<rfloor> + 1"
    using False by linarith+
  show ?thesis
    unfolding round_even_def Let_def f using d by auto
qed

lemma expo_minus: "expo (- x) = expo x"
  by (simp add: expo_def)

lemma fl_minus: "fl (- x) = - fl x"
  by (simp add: fl_def expo_minus round_even_minus Let_def)

lemma fl_0: "fl 0 = 0"
  by (simp add: fl_def)

lemma round_even_nonneg: "0 \<le> x \<Longrightarrow> 0 \<le> round_even x"
  using round_even_bounds(1)[of x] by (simp add: order_trans[of 0 "\<lfloor>x\<rfloor>"])

lemma fl_nonneg: "0 \<le> x \<Longrightarrow> 0 \<le> fl x"
  by (simp add: fl_def Let_def round_even_nonneg)

lemma fl_err_q: "\<bar>fl x - x\<bar> \<le> 2 powi (max (expo x) (- 1022) - 53)"
proof (cases "x = 0")
  case True
  then show ?thesis by (simp add: fl_0)
next
  case False
  define q :: real where "q = 2 powi (max (expo x) (- 1022) - 52)"
  have q: "0 < q"
    by (simp add: q_def)
  have "fl x - x = q * (of_int (round_even (x / q)) - x / q)"
    using False q by (simp add: fl_def Let_def q_def[symmetric] field_simps)
  then have "\<bar>fl x - x\<bar> = q * \<bar>of_int (round_even (x / q)) - x / q\<bar>"
    using q by (simp add: abs_mult)
  also have "\<dots> \<le> q * (1 / 2)"
    using q round_even_err[of "x / q"] by (intro mult_left_mono) simp_all
  also have "\<dots> = 2 powi (max (expo x) (- 1022) - 53)"
    unfolding q_def using power_int_diff[of "2::real" "max (expo x) (- 1022) - 52" 1]
    by simp
  finally show ?thesis .
qed

lemma fl_err: "\<bar>fl x - x\<bar> \<le> \<bar>x\<bar> / 2 ^ 53 + 1 / 2 ^ 1075"
proof (cases "x = 0")
  case True
  then show ?thesis by (simp add: fl_0)
next
  case False
  show ?thesis
  proof (cases "- 1022 \<le> expo x")
    case True
    then have "max (expo x) (- 1022) = expo x"
      by simp
    then have "\<bar>fl x - x\<bar> \<le> 2 powi (expo x - 53)"
      using fl_err_q[of x] by simp
    also have "\<dots> = 2 powi expo x / 2 ^ 53"
      using power_int_diff[of "2::real" "expo x" 53] by simp
    also have "\<dots> \<le> \<bar>x\<bar> / 2 ^ 53"
      using expo_bounds(1)[OF False] by (simp add: divide_right_mono)
    finally show ?thesis
      by simp
  next
    case False
    then have "max (expo x) (- 1022) = - 1022"
      by simp
    then have "\<bar>fl x - x\<bar> \<le> 2 powi (- 1075)"
      using fl_err_q[of x] by simp
    also have "\<dots> = 1 / 2 ^ 1075"
      by (simp add: power_int_minus_divide)
    finally show ?thesis
      by (simp add: add_increasing)
  qed
qed

lemma fl_repr:
  assumes n: "\<bar>n\<bar> < 2 ^ 53" and k: "- 1074 \<le> k"
  shows "fl (of_int n * 2 powi k) = of_int n * 2 powi k"
proof (cases "n = 0")
  case True
  then show ?thesis by (simp add: fl_0)
next
  case False
  define x :: real where "x = of_int n * 2 powi k"
  have x0: "x \<noteq> 0"
    using False by (simp add: x_def)
  define E where "E = max (expo x) (- 1022)"
  have "\<bar>x\<bar> = of_int \<bar>n\<bar> * 2 powi k"
    by (simp add: x_def abs_mult)
  also have "\<dots> < of_int (2 ^ 53) * 2 powi k"
    using n by (intro mult_strict_right_mono) (simp_all only: of_int_less_iff zero_less_power_int zero_less_numeral)
  also have "\<dots> = 2 powi (53 + k)"
    by (simp add: power_int_add)
  finally have "\<bar>x\<bar> < 2 powi (53 + k)" .
  then have "(2::real) powi expo x < 2 powi (53 + k)"
    using expo_bounds(1)[OF x0] by linarith
  then have "expo x < 53 + k"
    by (rule pow2_less_imp)
  then have j: "0 \<le> k - E + 52"
    using k by (simp add: E_def)
  define j where "j = nat (k - E + 52)"
  have "x / 2 powi (E - 52) = of_int n * (2 powi k / 2 powi (E - 52))"
    by (simp add: x_def)
  also have "2 powi k / 2 powi (E - 52) = (2::real) powi (k - (E - 52))"
    by (simp add: power_int_diff)
  also have "\<dots> = 2 ^ j"
    using j by (simp add: j_def power_int_nonneg_exp algebra_simps)
  finally have "x / 2 powi (E - 52) = of_int (n * 2 ^ j)"
    by simp
  then have "round_even (x / 2 powi (E - 52)) = n * 2 ^ j"
    by (simp only: round_even_of_int)
  then have "fl x = of_int (n * 2 ^ j) * 2 powi (E - 52)"
    using x0 by (simp add: fl_def Let_def E_def)
  also have "\<dots> = x / 2 powi (E - 52) * 2 powi (E - 52)"
    using \<open>x / 2 powi (E - 52) = of_int (n * 2 ^ j)\<close> by simp
  also have "\<dots> = x"
    by simp
  finally show ?thesis
    by (simp add: x_def)
qed

lemma fl_of_int: "\<bar>n\<bar> < 2 ^ 53 \<Longrightarrow> fl (of_int n) = of_int n"
  using fl_repr[of n 0] by simp

lemma pow2_diff: "(2::real) powi (a - b) = 2 powi a / 2 powi b"
  by (simp add: power_int_diff)

lemma pow2_add: "(2::real) powi (a + b) = 2 powi a * 2 powi b"
  by (simp add: power_int_add)

lemma of_int_mult_mono:
  assumes "(a::int) \<le> b" and "0 < (q::real)"
  shows "of_int a * q \<le> of_int b * q"
proof -
  have "(of_int a :: real) \<le> of_int b"
    using assms(1) by (simp only: of_int_le_iff)
  then show ?thesis
    using assms(2) by (intro mult_right_mono) simp_all
qed

lemma fl_upper_pos:
  assumes "0 < x"
  shows "fl x \<le> 2 powi (max (expo x) (- 1022) + 1)"
proof -
  define E where "E = max (expo x) (- 1022)"
  define q :: real where "q = 2 powi (E - 52)"
  have q: "0 < q"
    by (simp add: q_def)
  have x0: "x \<noteq> 0"
    using assms by simp
  have "x < 2 powi (expo x + 1)"
    using expo_bounds(2)[OF x0] assms by simp
  also have "\<dots> \<le> 2 powi (E + 1)"
    by (intro power_int_increasing) (simp_all add: E_def)
  finally have "x / q < 2 powi (E + 1) / q"
    using q by (simp add: divide_strict_right_mono)
  also have "2 powi (E + 1) / q = 2 powi ((E + 1) - (E - 52))"
    unfolding q_def by (rule pow2_diff[symmetric])
  also have "(E + 1) - (E - 52) = 53"
    by simp
  also have "(2::real) powi 53 = of_int (2 ^ 53)"
    by simp
  finally have "x / q \<le> of_int (2 ^ 53)"
    by simp
  then have "round_even (x / q) \<le> round_even (of_int (2 ^ 53))"
    by (rule round_even_mono)
  then have "round_even (x / q) \<le> 2 ^ 53"
    by (simp only: round_even_of_int)
  then have "of_int (round_even (x / q)) * q \<le> of_int (2 ^ 53) * q"
    using q by (rule of_int_mult_mono)
  also have "of_int (2 ^ 53) * q = 2 powi 53 * 2 powi (E - 52)"
    unfolding q_def by simp
  also have "\<dots> = 2 powi (53 + (E - 52))"
    by (rule pow2_add[symmetric])
  also have "53 + (E - 52) = E + 1"
    by simp
  finally show ?thesis
    using x0 by (simp add: fl_def Let_def E_def[symmetric] q_def[symmetric])
qed

lemma fl_lower_pos:
  assumes "0 < x" and "- 1022 \<le> expo x"
  shows "2 powi expo x \<le> fl x"
proof -
  define q :: real where "q = 2 powi (expo x - 52)"
  have q: "0 < q"
    by (simp add: q_def)
  have x0: "x \<noteq> 0"
    using assms by simp
  have E: "max (expo x) (- 1022) = expo x"
    using assms by simp
  have "2 powi expo x \<le> x"
    using expo_bounds(1)[OF x0] assms by simp
  then have "2 powi expo x / q \<le> x / q"
    using q by (simp add: divide_right_mono)
  moreover have "2 powi expo x / q = 2 powi (expo x - (expo x - 52))"
    unfolding q_def by (rule pow2_diff[symmetric])
  moreover have "expo x - (expo x - 52) = 52"
    by simp
  moreover have "(2::real) powi 52 = of_int (2 ^ 52)"
    by simp
  ultimately have "of_int (2 ^ 52) \<le> x / q"
    by simp
  then have "round_even (of_int (2 ^ 52)) \<le> round_even (x / q)"
    by (rule round_even_mono)
  then have "2 ^ 52 \<le> round_even (x / q)"
    by (simp only: round_even_of_int)
  then have "of_int (2 ^ 52) * q \<le> of_int (round_even (x / q)) * q"
    using q by (rule of_int_mult_mono)
  moreover have "of_int (2 ^ 52) * q = 2 powi 52 * 2 powi (expo x - 52)"
    unfolding q_def by simp
  moreover have "(2::real) powi 52 * 2 powi (expo x - 52) = 2 powi (52 + (expo x - 52))"
    by (rule pow2_add[symmetric])
  moreover have "52 + (expo x - 52) = expo x"
    by simp
  ultimately have "2 powi expo x \<le> of_int (round_even (x / q)) * q"
    by simp
  then show ?thesis
    using x0 by (simp add: fl_def Let_def E q_def[symmetric])
qed

lemma fl_mono_pos:
  assumes "0 < x" and "x \<le> y"
  shows "fl x \<le> fl y"
proof -
  have y: "0 < y"
    using assms by simp
  have x0: "x \<noteq> 0" and y0: "y \<noteq> 0"
    using assms by simp_all
  have "2 powi expo x \<le> x"
    using expo_bounds(1)[OF x0] assms by simp
  moreover have "y < 2 powi (expo y + 1)"
    using expo_bounds(2)[OF y0] y by simp
  ultimately have "(2::real) powi expo x < 2 powi (expo y + 1)"
    using assms(2) by linarith
  then have e: "expo x \<le> expo y"
    using pow2_less_imp[of "expo x" "expo y + 1"] by simp
  show ?thesis
  proof (cases "max (expo x) (- 1022) = max (expo y) (- 1022)")
    case True
    define q :: real where "q = 2 powi (max (expo y) (- 1022) - 52)"
    have q: "0 < q"
      by (simp add: q_def)
    have "x / q \<le> y / q"
      using assms(2) q by (simp add: divide_right_mono)
    then have "round_even (x / q) \<le> round_even (y / q)"
      by (rule round_even_mono)
    then have "of_int (round_even (x / q)) * q \<le> of_int (round_even (y / q)) * q"
      using q by (rule of_int_mult_mono)
    then show ?thesis
      using x0 y0 by (simp add: fl_def Let_def True q_def[symmetric])
  next
    case False
    with e have lt: "max (expo x) (- 1022) < expo y" and ny: "- 1022 \<le> expo y"
      unfolding max_def by (simp_all split: if_splits)
    have "fl x \<le> 2 powi (max (expo x) (- 1022) + 1)"
      using assms(1) by (rule fl_upper_pos)
    also have "\<dots> \<le> 2 powi expo y"
    proof (intro power_int_increasing)
      show "max (expo x) (- 1022) + 1 \<le> expo y"
        using lt by linarith
    qed simp
    also have "\<dots> \<le> fl y"
      using y ny by (rule fl_lower_pos)
    finally show ?thesis .
  qed
qed

lemma fl_mono:
  assumes "x \<le> y"
  shows "fl x \<le> fl y"
proof -
  consider "0 < x" | "x \<le> 0" "0 \<le> y" | "y < 0"
    using assms by linarith
  then show ?thesis
  proof cases
    case 1
    then show ?thesis using assms by (rule fl_mono_pos)
  next
    case 2
    have "fl x \<le> 0"
      using fl_nonneg[of "- x"] 2(1) by (simp add: fl_minus)
    also have "0 \<le> fl y"
      using 2(2) by (rule fl_nonneg)
    finally show ?thesis .
  next
    case 3
    have "fl (- y) \<le> fl (- x)"
      using 3 assms by (intro fl_mono_pos) simp_all
    then show ?thesis
      by (simp add: fl_minus)
  qed
qed

lemma round_even_abs_le:
  assumes "\<bar>y\<bar> < of_int n"
  shows "\<bar>round_even y\<bar> \<le> n"
proof -
  have "y < of_int n" "- of_int n < y"
    using assms by linarith+
  then have "\<lfloor>y\<rfloor> < n" "- n \<le> \<lfloor>y\<rfloor>"
    by (simp_all add: floor_less_iff le_floor_iff less_imp_le)
  then show ?thesis
    using round_even_bounds[of y] by linarith
qed

lemma fl_scaled_bound:
  assumes "x \<noteq> 0"
  shows "\<bar>x / 2 powi (max (expo x) (- 1022) - 52)\<bar> < of_int (2 ^ 53)"
proof -
  define E where "E = max (expo x) (- 1022)"
  define q :: real where "q = 2 powi (E - 52)"
  have q: "0 < q"
    by (simp add: q_def)
  have "\<bar>x\<bar> < 2 powi (expo x + 1)"
    using expo_bounds(2)[OF assms] .
  also have "\<dots> \<le> 2 powi (E + 1)"
    by (intro power_int_increasing) (simp_all add: E_def)
  finally have "\<bar>x\<bar> / q < 2 powi (E + 1) / q"
    using q by (simp add: divide_strict_right_mono)
  also have "2 powi (E + 1) / q = 2 powi ((E + 1) - (E - 52))"
    unfolding q_def by (rule pow2_diff[symmetric])
  also have "(E + 1) - (E - 52) = 53"
    by simp
  also have "(2::real) powi 53 = of_int (2 ^ 53)"
    by simp
  finally show ?thesis
    using q by (simp add: E_def q_def abs_divide)
qed

lemma fl_decomp: "\<exists>m k. fl x = of_int m * 2 powi k \<and> \<bar>m\<bar> < 2 ^ 53 \<and> - 1074 \<le> k"
proof (cases "x = 0")
  case True
  have "fl x = of_int 0 * 2 powi 0 \<and> \<bar>0::int\<bar> < 2 ^ 53 \<and> (- 1074::int) \<le> 0"
    using True by (simp add: fl_0)
  then show ?thesis
    by blast
next
  case False
  define E where "E = max (expo x) (- 1022)"
  define z where "z = round_even (x / 2 powi (E - 52))"
  have fx: "fl x = of_int z * 2 powi (E - 52)"
    using False by (simp add: fl_def Let_def E_def z_def)
  have E: "- 1022 \<le> E"
    by (simp add: E_def)
  have zb: "\<bar>z\<bar> \<le> 2 ^ 53"
    unfolding z_def E_def by (rule round_even_abs_le) (rule fl_scaled_bound[OF False])
  show ?thesis
  proof (cases "\<bar>z\<bar> < 2 ^ 53")
    case True
    then have "fl x = of_int z * 2 powi (E - 52) \<and> \<bar>z\<bar> < 2 ^ 53 \<and> - 1074 \<le> E - 52"
      using fx E by simp
    then show ?thesis
      by blast
  next
    case False
    with zb have "z = 2 ^ 53 \<or> z = - (2 ^ 53)"
      by linarith
    then obtain sg :: int where sg: "z = sg * 2 ^ 53" "\<bar>sg\<bar> = 1"
      by (cases "z = 2 ^ 53") auto
    have "fl x = of_int sg * (2 powi 53 * 2 powi (E - 52))"
      using fx sg(1) by simp
    also have "2 powi 53 * 2 powi (E - 52) = (2::real) powi (53 + (E - 52))"
      by (rule pow2_add[symmetric])
    also have "53 + (E - 52) = E + 1"
      by simp
    finally have "fl x = of_int sg * 2 powi (E + 1) \<and> \<bar>sg\<bar> < 2 ^ 53 \<and> - 1074 \<le> E + 1"
      using sg(2) E by simp
    then show ?thesis
      by blast
  qed
qed

lemma fl_fl: "fl (fl x) = fl x"
proof -
  obtain m k where "fl x = of_int m * 2 powi k" "\<bar>m\<bar> < 2 ^ 53" "- 1074 \<le> k"
    using fl_decomp by blast
  then show ?thesis
    by (simp add: fl_repr)
qed

lemma fl_abs_le:
  assumes "\<bar>x\<bar> \<le> b" and "fl b = b"
  shows "\<bar>fl x\<bar> \<le> b"
proof -
  have "fl x \<le> fl b" "fl (- b) \<le> fl x"
    using assms(1) by (intro fl_mono; linarith)+
  then show ?thesis
    using assms(2) by (simp add: fl_minus abs_le_iff)
qed

lemma fl_pow2: "fl (2 ^ n) = 2 ^ n" if "n \<le> 1023"
proof -
  have "fl (of_int 1 * 2 powi (int n)) = of_int 1 * 2 powi (int n)"
    by (rule fl_repr) simp_all
  then show ?thesis
    by (simp add: power_int_def)
qed

lemma js_num_finite:
  assumes "\<bar>x\<bar> \<le> 2 ^ 1023"
  shows "js_num x = Some (fl x)"
proof -
  have "\<bar>fl x\<bar> \<le> 2 ^ 1023"
    using assms by (rule fl_abs_le) (rule fl_pow2, simp)
  also have "(2::real) ^ 1023 < 2 ^ 1024"
    by simp
  finally show ?thesis
    by (simp add: js_num_def)
qed

lemma fl_numeral: "numeral w < (2::int) ^ 53 \<Longrightarrow> fl (numeral w) = numeral w"
  using fl_of_int[of "numeral w"] by simp






section \<open>Clips and tracks: results\<close>

lemma AudioClip_new_inv: "clip_inv (fst (AudioClip_new options now k))"
  by (auto simp: AudioClip_new_def clip_inv_def getOriginalDuration_def str_or_def
      num_or_def Let_def split: option.splits)

lemma setStartTime_inv: "clip_inv c \<Longrightarrow> clip_inv (setStartTime t c)"
  by (simp add: clip_inv_def setStartTime_def getOriginalDuration_def)

lemma move_inv: "clip_inv c \<Longrightarrow> move d c = Some c' \<Longrightarrow> clip_inv c'"
  by (auto simp: move_def setStartTime_inv split: Option.bind_splits)

lemma fl_tenth: "fl (1 / 10) = 3602879701896397 / 2 ^ 55"
  by (subst fl_eval[where e = "- 4"]) (simp_all add: round_even_def)

lemma setDuration_inv: "clip_inv c \<Longrightarrow> clip_inv (setDuration d c)"
proof -
  have "max (fl (1 / 10)) x \<noteq> 0" for x :: real
    by (simp add: max_def fl_tenth)
  moreover have "fl (1 / 10) \<noteq> 0"
    by (simp add: fl_tenth)
  ultimately show "clip_inv c \<Longrightarrow> clip_inv (setDuration d c)"
    by (simp add: clip_inv_def setDuration_def getOriginalDuration_def split: option.splits)
qed

lemma rename_clip_inv: "clip_inv c \<Longrightarrow> clip_inv (rename_clip n c)"
  by (simp add: clip_inv_def rename_clip_def getOriginalDuration_def)

text \<open>
  C9. After \<open>addClip(c)\<close> the clip list of the track is sorted ascending by \<open>startTime\<close>,
  whatever the list was before; it holds the clips that were there and the new clip, each
  as often as before and the new clip once more; the \<open>trackId\<close> of the clip is the id
  of the track, and nothing else of the clip and nothing else of the track has changed.
\<close>

theorem addClip_sorted_trackId:
  "sorted (map startTime (clips (fst (addClip c t))))
   \<and> mset (clips (fst (addClip c t))) = add_mset (snd (addClip c t)) (mset (clips t))
   \<and> snd (addClip c t) = c\<lparr>trackId := Some (track_id t)\<rparr>
   \<and> trackId (snd (addClip c t)) = Some (track_id t)
   \<and> fst (addClip c t) = t\<lparr>clips := clips (fst (addClip c t))\<rparr>"
  by (simp add: addClip_def sortClips_def Let_def)

text \<open>
  C10. \<open>clone()\<close> returns a clip with gain 1.0, not selected and on no track, whatever the
  gain, selection and track of the original; the buffer reference, \<open>startTime\<close> and
  \<open>offset\<close> carry over, and so do the name and the duration of every clip that the
  constructor and the mutators can produce (\<open>clip_inv\<close>).
\<close>

theorem clone_resets_gain_selected:
  "gain (fst (clone c now k)) = 1
   \<and> \<not> selected (fst (clone c now k))
   \<and> trackId (fst (clone c now k)) = None
   \<and> audioBuffer (fst (clone c now k)) = audioBuffer c
   \<and> startTime (fst (clone c now k)) = startTime c
   \<and> offset (fst (clone c now k)) = offset c
   \<and> (clip_inv c \<longrightarrow>
        clip_name (fst (clone c now k)) = clip_name c
        \<and> duration (fst (clone c now k)) = duration c)"
  by (auto simp: clone_def AudioClip_new_def clip_inv_def getOriginalDuration_def
      str_or_def num_or_def Let_def split: option.splits)

theorem clone_resets_gain_selected_witness:
  "clip_inv (clip0\<lparr>gain := 1 / 2, selected := True\<rparr>)
   \<and> gain (fst (clone (clip0\<lparr>gain := 1 / 2, selected := True\<rparr>) 2000 1)) = 1
   \<and> \<not> selected (fst (clone (clip0\<lparr>gain := 1 / 2, selected := True\<rparr>) 2000 1))
   \<and> clip_name (fst (clone (clip0\<lparr>gain := 1 / 2, selected := True\<rparr>) 2000 1))
       = ''Audio Clip''
   \<and> duration (fst (clone (clip0\<lparr>gain := 1 / 2, selected := True\<rparr>) 2000 1)) = 3"
  using clone_resets_gain_selected [of "clip0\<lparr>gain := 1 / 2, selected := True\<rparr>" 2000 1]
  by (simp add: clip_inv_def getOriginalDuration_def clip0_def)

section \<open>Mute and solo: results\<close>

text \<open>
  The first \<open>handleSoloLogic\<close> writes the mix rule's gain to every bound gain node.
\<close>

lemma handleSoloLogic_pushes_effectiveGain:
  "map gainNode (handleSoloLogic ts) =
   map (\<lambda>t. case gainNode t of None \<Rightarrow> None | Some _ \<Rightarrow> Some (effectiveGain ts t)) ts"
  by (auto simp: handleSoloLogic_def effectiveGain_def Let_def split: option.splits)

text \<open>Both variants resolve the spec's matrix to \<open>A = A.volume, B = 0, C = 0\<close>.\<close>

lemma handleSoloLogic_matrix:
  "map gainNode (handleSoloLogic [trackA, trackB, trackC]) = [Some (4 / 5), Some 0, Some 0]
   \<and> map gainNode (handleSoloLogic_alt [trackA, trackB, trackC])
       = [Some (4 / 5), Some 0, Some 0]"
  by (simp add: handleSoloLogic_def handleSoloLogic_alt_def trackA_def trackB_def trackC_def)

text \<open>
  C1. The gain pushed to a sink follows the rule "mute wins over solo". The second
  \<open>handleSoloLogic\<close> (TrackList.js lines 367-383) breaks it: for a track that is both
  muted and solo it writes the track's volume, where the rule gives 0.
\<close>

theorem handleSoloLogic_alt_muted_solo:
  "muted (trackA\<lparr>muted := True\<rparr>) \<and> solo (trackA\<lparr>muted := True\<rparr>)
   \<and> map gainNode (handleSoloLogic_alt [trackA\<lparr>muted := True\<rparr>]) = [Some (4 / 5)]
   \<and> effectiveGain [trackA\<lparr>muted := True\<rparr>] (trackA\<lparr>muted := True\<rparr>) = 0
   \<and> map gainNode (handleSoloLogic [trackA\<lparr>muted := True\<rparr>]) = [Some 0]"
  by (simp add: handleSoloLogic_alt_def handleSoloLogic_def effectiveGain_def trackA_def)

text \<open>
  With a gain node bound, \<open>setVolume\<close> and \<open>setMuted\<close> push the track's own gain
  \<open>muted ? 0 : volume\<close>; they read no other track.
\<close>

lemma setters_push_local_gain:
  assumes "gainNode t = Some g"
  shows "gainNode (setVolume v t) = Some (if muted t then 0 else max 0 (min 1 v))"
    and "gainNode (setMuted m t) = Some (if m then 0 else volume t)"
  using assms by (simp_all add: setVolume_def setMuted_def Let_def)

text \<open>
  C8. The setters do not push the gain of the mix rule. With track A solo, track C
  (not muted, not solo, gain node at 0 as \<open>handleSoloLogic\<close> left it) is silent under
  the rule; \<open>C.setVolume(0.5)\<close> writes 0.5 to its gain node, where the rule still gives
  0, and the track is heard until the next \<open>handleSoloLogic\<close>. The volume sliders of the
  track list and of the mixer call \<open>setVolume\<close> and nothing else. \<open>setMuted(false)\<close> on
  the muted track B does the same, but the mute buttons call \<open>handleSoloLogic\<close> next,
  which restores 0.
\<close>

theorem setVolume_unsilences_track:
  "list_ex solo [trackA, trackB, trackC\<lparr>gainNode := Some 0\<rparr>]
   \<and> map gainNode (handleSoloLogic [trackA, trackB, trackC])
       = map gainNode [trackA, trackB, trackC\<lparr>gainNode := Some 0\<rparr>]
   \<and> gainNode (setVolume (1 / 2) (trackC\<lparr>gainNode := Some 0\<rparr>)) = Some (1 / 2)
   \<and> effectiveGain [trackA, trackB, setVolume (1 / 2) (trackC\<lparr>gainNode := Some 0\<rparr>)]
        (setVolume (1 / 2) (trackC\<lparr>gainNode := Some 0\<rparr>)) = 0
   \<and> gainNode (setMuted False trackB) = Some (4 / 5)
   \<and> effectiveGain [trackA, setMuted False trackB, trackC] (setMuted False trackB) = 0
   \<and> map gainNode (handleSoloLogic [trackA, setMuted False trackB, trackC])
       = [Some (4 / 5), Some 0, Some 0]"
  by (simp add: setVolume_def setMuted_def effectiveGain_def handleSoloLogic_def
      trackA_def trackB_def trackC_def)

section \<open>Scheduling: results\<close>

lemma js_num_SomeD: "js_num x = Some y \<Longrightarrow> y = fl x"
  by (simp add: js_num_def split: if_splits)


lemma fsub_SomeD: "fsub a b = Some y \<Longrightarrow> y = fl (a - b)"
  unfolding fsub_def by (rule js_num_SomeD)

lemma fmul_SomeD: "fmul a b = Some y \<Longrightarrow> y = fl (a * b)"
  unfolding fmul_def by (rule js_num_SomeD)

lemma fdiv_SomeD: "fdiv a b = Some y \<Longrightarrow> y = fl (a / b) \<and> b \<noteq> 0"
  unfolding fdiv_def by (auto dest: js_num_SomeD split: if_splits)


lemma js_num_numeral: "numeral w < (2::int) ^ 53 \<Longrightarrow> js_num (numeral w) = Some (numeral w)"
proof -
  assume w: "numeral w < (2::int) ^ 53"
  have "(2::int) ^ 53 \<le> 2 ^ 1023"
    by (intro power_increasing) simp_all
  with w have "numeral w \<le> (2::int) ^ 1023"
    by linarith
  then have "(of_int (numeral w) :: real) \<le> of_int (2 ^ 1023)"
    by (simp only: of_int_le_iff)
  then have "\<bar>numeral w :: real\<bar> \<le> 2 ^ 1023"
    by simp
  then show ?thesis
    using w by (simp only: js_num_finite fl_numeral)
qed

lemma js_num_0: "js_num 0 = Some 0"
  by (simp add: js_num_def fl_0)



lemma schedule_clip_track: "schedule_clip D P (t\<lparr>solo := b, volume := v\<rparr>) c = schedule_clip D P t c"
  by (simp add: schedule_clip_def cong: if_cong)

lemma schedule_clips_Some:
  "schedule_clips D P t cs = Some xs \<Longrightarrow>
     xs = concat (map (\<lambda>c. the (schedule_clip D P t c)) cs)
     \<and> (\<forall>c \<in> set cs. schedule_clip D P t c \<noteq> None)"
  by (induction cs arbitrary: xs) (auto split: Option.bind_splits)

lemma schedule_tracks_Some:
  "schedule_tracks D P ts = Some xs \<Longrightarrow>
     xs = concat (map (\<lambda>t. concat (map (\<lambda>c. the (schedule_clip D P t c)) (clips t)))
                   (filter (\<lambda>t. \<not> muted t) ts))
     \<and> (\<forall>t \<in> set ts. \<not> muted t \<longrightarrow> (\<forall>c \<in> set (clips t). schedule_clip D P t c \<noteq> None))"
proof (induction ts arbitrary: xs)
  case Nil
  then show ?case by simp
next
  case (Cons t ts)
  from Cons.prems obtain a b where a: "schedule_track D P t = Some a"
    and b: "schedule_tracks D P ts = Some b" and xs: "xs = a @ b"
    by (auto split: Option.bind_splits)
  note ih = Cons.IH[OF b]
  show ?case
  proof (cases "muted t")
    case True
    then have "a = []"
      using a by (simp add: schedule_track_def)
    then show ?thesis
      using True ih xs by simp
  next
    case False
    then have "schedule_clips D P t (clips t) = Some a"
      using a by (simp add: schedule_track_def)
    from schedule_clips_Some[OF this] show ?thesis
      using False ih xs by simp
  qed
qed

lemma schedulePlayback_Some:
  assumes "schedulePlayback now s = Some s'"
  shows "schedule_tracks now (fl (now - eng_startTime s)) (tracks s) = Some (activeSources s')"
    and "s' = s\<lparr>activeSources := activeSources s'\<rparr>"
    and "audioContext s"
  using assms
  by (auto simp: schedulePlayback_def stopAllSources_def Let_def
      dest!: fsub_SomeD split: Option.bind_splits if_splits)

text \<open>
  C3 as stated fails: a track that is not muted but silenced by another track's solo, or
  whose volume is 0, has effective gain 0 and still gets its commands.
\<close>

theorem schedule_silenced_track_counterexample:
  "effectiveGain [trackA, trackB, trackC] trackC = 0
   \<and> schedule_track 10 0 trackC =
       Some [\<lparr> src_track = (900, 3), src_buffer = Some \<lparr> buf_ref = 1, buf_duration = 3 \<rparr>,
               src_when = 12, src_offset = 0, src_duration = 3 \<rparr>]
   \<and> effectiveGain [trackC\<lparr>volume := 0\<rparr>] (trackC\<lparr>volume := 0\<rparr>) = 0
   \<and> schedule_track 10 0 (trackC\<lparr>volume := 0\<rparr>) =
       Some [\<lparr> src_track = (900, 3), src_buffer = Some \<lparr> buf_ref = 1, buf_duration = 3 \<rparr>,
               src_when = 12, src_offset = 0, src_duration = 3 \<rparr>]"
  by (simp add: effectiveGain_def schedule_track_def schedule_clip_def trackA_def trackB_def
      trackC_def clip0_def num_or_def fadd_def fsub_def js_num_numeral js_num_0)

text \<open>
  C3, amended. The scheduler skips the muted tracks and only them. When
  \<open>schedulePlayback\<close> returns, the sources it has started are, in order, those of every
  clip of every track that is not muted, each clip scheduled by \<open>schedule_clip\<close> at the
  position \<open>audioContext.currentTime - startTime\<close>; the tracks and the rest of the engine
  are unchanged. What is scheduled for a clip does not depend on the solo flag or the
  volume of its track, and a muted track gets nothing.
\<close>

theorem schedule_skips_muted_only:
  assumes "schedulePlayback now s = Some s'"
  shows "activeSources s' =
           concat (map (\<lambda>t. concat (map (\<lambda>c. the (schedule_clip now (fl (now - eng_startTime s)) t c))
                                       (clips t)))
                    (filter (\<lambda>t. \<not> muted t) (tracks s)))
         \<and> (\<forall>t \<in> set (tracks s). \<not> muted t \<longrightarrow>
               (\<forall>c \<in> set (clips t). schedule_clip now (fl (now - eng_startTime s)) t c \<noteq> None))
         \<and> s' = s\<lparr>activeSources := activeSources s'\<rparr>
         \<and> schedule_clip D P (t\<lparr>solo := b, volume := v\<rparr>) c = schedule_clip D P t c
         \<and> (muted t \<longrightarrow> schedule_track D P t = Some [])"
proof -
  note sp = schedulePlayback_Some[OF assms]
  show ?thesis
    using schedule_tracks_Some[OF sp(1)] sp(2)
    by (simp add: schedule_clip_track schedule_track_def)
qed

theorem schedule_skips_muted_only_witness:
  "schedulePlayback 10 engine2 =
     Some (engine2\<lparr>activeSources :=
       [\<lparr> src_track = (900, 3), src_buffer = Some \<lparr> buf_ref = 1, buf_duration = 3 \<rparr>,
          src_when = 12, src_offset = 0, src_duration = 3 \<rparr>]\<rparr>)
   \<and> map muted (tracks engine2) = [False, True, False]
   \<and> map (\<lambda>t. length (clips t)) (tracks engine2) = [0, 1, 1]
   \<and> schedule_clip 10 0 trackC clip0 =
       Some [\<lparr> src_track = (900, 3), src_buffer = Some \<lparr> buf_ref = 1, buf_duration = 3 \<rparr>,
               src_when = 12, src_offset = 0, src_duration = 3 \<rparr>]
   \<and> schedule_clip 10 0 (trackC\<lparr>solo := True, volume := 0\<rparr>) clip0 = schedule_clip 10 0 trackC clip0
   \<and> schedule_track 10 0 (trackB\<lparr>clips := [clip0]\<rparr>) = Some []"
proof -
  have c: "schedule_clip 10 0 trackC clip0 =
       Some [\<lparr> src_track = (900, 3), src_buffer = Some \<lparr> buf_ref = 1, buf_duration = 3 \<rparr>,
               src_when = 12, src_offset = 0, src_duration = 3 \<rparr>]"
    by (simp add: schedule_clip_def trackC_def clip0_def num_or_def fadd_def fsub_def
        js_num_numeral js_num_0)
  have e: "schedulePlayback 10 engine2 =
     Some (engine2\<lparr>activeSources :=
       [\<lparr> src_track = (900, 3), src_buffer = Some \<lparr> buf_ref = 1, buf_duration = 3 \<rparr>,
          src_when = 12, src_offset = 0, src_duration = 3 \<rparr>]\<rparr>)"
    using c
    by (simp add: schedulePlayback_def stopAllSources_def engine2_def engine0_def
        AudioEngine_new_def schedule_track_def trackA_def trackB_def fsub_def js_num_0
        trackC_def)
  have m: "schedule_track 10 0 (trackB\<lparr>clips := [clip0]\<rparr>) = Some []"
    using schedule_skips_muted_only [OF e, where t = "trackB\<lparr>clips := [clip0]\<rparr>" and D = 10
      and P = 0]
    by (simp add: trackB_def)
  have i: "schedule_clip 10 0 (trackC\<lparr>solo := True, volume := 0\<rparr>) clip0
             = schedule_clip 10 0 trackC clip0"
    using schedule_skips_muted_only [OF e, where t = trackC and D = 10 and P = 0
      and b = True and v = 0 and c = clip0]
    by blast
  have f: "map muted (tracks engine2) = [False, True, False]"
    "map (\<lambda>t. length (clips t)) (tracks engine2) = [0, 1, 1]"
    by (simp_all add: engine2_def engine0_def trackA_def trackB_def trackC_def)
  show ?thesis
    using c e m i f by blast
qed

lemma js_num_small: "\<bar>x\<bar> \<le> 2 ^ 54 \<Longrightarrow> js_num x = Some (fl x)"
proof -
  assume "\<bar>x\<bar> \<le> 2 ^ 54"
  moreover have "(2::real) ^ 54 \<le> 2 ^ 1023"
    by (intro power_increasing) simp_all
  ultimately have "\<bar>x\<bar> \<le> 2 ^ 1023"
    by linarith
  then show ?thesis
    by (rule js_num_finite)
qed

lemma js_num_fl_eq: "fl x = y \<Longrightarrow> \<bar>y\<bar> \<le> 2 ^ 54 \<Longrightarrow> js_num x = Some y"
proof -
  assume a: "fl x = y" "\<bar>y\<bar> \<le> 2 ^ 54"
  have "(2::real) ^ 54 < 2 ^ 1024"
    by (intro power_strict_increasing) simp_all
  with a(2) have "\<bar>y\<bar> < 2 ^ 1024"
    by linarith
  then show ?thesis
    unfolding js_num_def a(1) by (simp only: if_True)
qed










lemma fl_add_0: "fl (0 + fl x) = fl x" "fl (fl x - 0) = fl x"
  by (simp_all add: fl_fl)





section \<open>Transport: results\<close>




text \<open>
  \<open>play()\<close> returns to its caller before the transport is playing. A \<open>pause()\<close> that
  the caller issues next, without awaiting, finds the transport not playing and does
  nothing; the continuation of \<open>play()\<close> then starts playback.
\<close>

lemma play_then_pause_unawaited:
  assumes "\<not> isPlaying s"
  shows "play_begin s = (init s, True)" and "pause now (init s) = Some (init s)"
  using assms by (simp_all add: play_begin_def pause_def init_def)




section \<open>Tempo: results\<close>

text \<open>
  C4 as stated fails on its second half: \<open>setTempo\<close> does not reject \<open>NaN\<close>; it stores it.
\<close>

theorem setTempo_NaN_counterexample:
  "tempo AudioEngine_new = Num 120 \<and> tempo (setTempo NaN AudioEngine_new) = NaN"
  by (simp add: setTempo_def Math_max_def Math_min_def AudioEngine_new_def)

text \<open>
  C4, amended. A number passed to \<open>setTempo\<close> is clamped into [20,300] and stored, and
  nothing else of the engine changes; \<open>setTempo\<close> itself rejects nothing: \<open>NaN\<close> is
  stored as the tempo.
\<close>

theorem setTempo_number:
  "setTempo (Num x) s = s\<lparr>tempo := Num (max 20 (min 300 x))\<rparr>
   \<and> 20 \<le> max 20 (min 300 x) \<and> max 20 (min 300 x) \<le> 300
   \<and> setTempo NaN s = s\<lparr>tempo := NaN\<rparr>"
  by (auto simp: setTempo_def Math_max_def Math_min_def max_def min_def)

lemma setTempo_inf: "tempo (setTempo PosInf s) = Num 300 \<and> tempo (setTempo NegInf s) = Num 20"
  by (simp add: setTempo_def Math_max_def Math_min_def)

section \<open>Grid: results\<close>

lemma fl_err_weak: "\<bar>fl x - x\<bar> \<le> \<bar>x\<bar> / 2 ^ 53 + 1 / 2 ^ 70"
proof -
  have "(2::real) ^ 70 \<le> 2 ^ 1075"
    by (intro power_increasing) simp_all
  then have "1 / (2::real) ^ 1075 \<le> 1 / 2 ^ 70"
    by (intro divide_left_mono) simp_all
  then show ?thesis
    using fl_err[of x] by linarith
qed

lemma fl_dyadic: "fl (1 / 8) = 1 / 8" "fl (1 / 512) = 1 / 512" "fl 4 = 4" "fl 256 = 256"
  using fl_repr[of 1 "- 3"] fl_repr[of 1 "- 9"] fl_numeral[of "num.Bit0 (num.Bit0 num.One)"]
    fl_of_int[of 256]
  by (simp_all add: power_int_minus_divide)

lemma snap_interval:
  assumes "20 \<le> tmp" and "tmp \<le> 300" and "1 / 64 \<le> g" and "g \<le> 64"
  shows "fdiv 60 tmp = Some (fl (60 / tmp))"
    and "fmul (fl (60 / tmp)) g = Some (fl (fl (60 / tmp) * g))"
    and "1 / 512 \<le> fl (fl (60 / tmp) * g)" and "fl (fl (60 / tmp) * g) \<le> 256"
proof -
  define r where "r = fl (60 / tmp)"
  have x: "1 / 8 \<le> 60 / tmp" "60 / tmp \<le> 4"
    using assms(1,2) by (simp_all add: field_simps)
  then have "\<bar>60 / tmp\<bar> \<le> 2 ^ 54"
    by simp
  then show "fdiv 60 tmp = Some (fl (60 / tmp))"
    using assms(1) by (simp add: fdiv_def js_num_small)
  have r: "1 / 8 \<le> r" "r \<le> 4"
    unfolding r_def using fl_mono[OF x(1)] fl_mono[OF x(2)] by (simp_all only: fl_dyadic)
  have "1 / 8 * (1 / 64) \<le> r * g"
    using r(1) assms(3) by (intro mult_mono) simp_all
  then have lo: "1 / 512 \<le> r * g"
    by simp
  have "r * g \<le> 4 * 64"
    using r assms(3,4) by (intro mult_mono) simp_all
  then have hi: "r * g \<le> 256"
    by simp
  have "\<bar>r * g\<bar> \<le> 2 ^ 54"
    using lo hi by simp
  then show "fmul (fl (60 / tmp)) g = Some (fl (fl (60 / tmp) * g))"
    by (simp add: fmul_def js_num_small r_def)
  show "1 / 512 \<le> fl (fl (60 / tmp) * g)" "fl (fl (60 / tmp) * g) \<le> 256"
    using fl_mono[OF lo] fl_mono[OF hi] unfolding r_def by (simp_all only: fl_dyadic)
qed

lemma snap_round_stable:
  assumes i: "1 / 512 \<le> i" "i \<le> 256" and n: "\<bar>n\<bar> \<le> 2 ^ 50"
  shows "\<lfloor>fl (fl (of_int n * i) / i) + 1 / 2\<rfloor> = n"
    and "\<bar>of_int n * i\<bar> \<le> 2 ^ 1023"
    and "\<bar>fl (of_int n * i) / i\<bar> \<le> 2 ^ 54"
proof -
  define s where "s = fl (of_int n * i)"
  define N :: real where "N = of_int n"
  have i0: "0 < i"
    using i(1) by simp
  have N: "\<bar>N\<bar> \<le> 2 ^ 50"
    unfolding N_def using n by (simp only: of_int_abs[symmetric] of_int_le_iff[symmetric, where 'a = real]) simp
  have "\<bar>N * i\<bar> = \<bar>N\<bar> * i"
    using i0 by (simp add: abs_mult)
  also have "\<dots> \<le> 2 ^ 50 * 256"
    using N i i0 by (intro mult_mono) simp_all
  finally have ni: "\<bar>N * i\<bar> \<le> 2 ^ 58"
    by simp
  have "(2::real) ^ 58 \<le> 2 ^ 1023"
    by (intro power_increasing) simp_all
  with ni show "\<bar>of_int n * i\<bar> \<le> 2 ^ 1023"
    unfolding N_def by linarith
  have e1: "\<bar>s - N * i\<bar> \<le> \<bar>N\<bar> * i / 2 ^ 53 + 1 / 2 ^ 70"
    using fl_err_weak[of "N * i"] i0 by (simp add: s_def N_def abs_mult)
  have "s / i - N = (s - N * i) / i"
    using i0 by (simp add: field_simps)
  then have "\<bar>s / i - N\<bar> = \<bar>s - N * i\<bar> / i"
    using i0 by (simp add: abs_divide)
  also have "\<dots> \<le> (\<bar>N\<bar> * i / 2 ^ 53 + 1 / 2 ^ 70) / i"
    using e1 i0 by (intro divide_right_mono) simp_all
  also have "\<dots> = \<bar>N\<bar> / 2 ^ 53 + 1 / 2 ^ 70 / i"
    using i0 by (simp add: add_divide_distrib)
  also have "\<dots> \<le> \<bar>N\<bar> / 2 ^ 53 + 1 / 2 ^ 70 / (1 / 512)"
    using i(1) by (intro add_left_mono divide_left_mono) simp_all
  also have "\<dots> \<le> 2 ^ 50 / 2 ^ 53 + 1 / 2 ^ 70 / (1 / 512)"
    using N by (intro add_right_mono divide_right_mono) simp_all
  finally have d1: "\<bar>s / i - N\<bar> \<le> 1 / 8 + 1 / 2 ^ 61"
    by simp
  have "(1::real) / 8 + 1 / 2 ^ 61 \<le> 1"
    by simp
  with d1 have "\<bar>s / i - N\<bar> \<le> 1"
    by linarith
  moreover have "\<bar>s / i\<bar> \<le> \<bar>s / i - N\<bar> + \<bar>N\<bar>"
    by linarith
  ultimately have si: "\<bar>s / i\<bar> \<le> 2 ^ 50 + 1"
    using N by linarith
  then show "\<bar>fl (of_int n * i) / i\<bar> \<le> 2 ^ 54"
    unfolding s_def by simp
  have "\<bar>fl (s / i) - s / i\<bar> \<le> \<bar>s / i\<bar> / 2 ^ 53 + 1 / 2 ^ 70"
    by (rule fl_err_weak)
  also have "\<dots> \<le> (2 ^ 50 + 1) / 2 ^ 53 + 1 / 2 ^ 70"
    using si by (intro add_right_mono divide_right_mono) simp_all
  finally have d2: "\<bar>fl (s / i) - s / i\<bar> \<le> 1 / 8 + 1 / 2 ^ 52"
    by simp
  have "(1::real) / 8 + 1 / 2 ^ 61 \<le> 3 / 16" "(1::real) / 8 + 1 / 2 ^ 52 \<le> 3 / 16"
    by simp_all
  with d1 d2 have "\<bar>s / i - N\<bar> \<le> 3 / 16" "\<bar>fl (s / i) - s / i\<bar> \<le> 3 / 16"
    by linarith+
  then have "\<bar>fl (s / i) - N\<bar> < 1 / 2"
    by linarith
  then have "of_int n \<le> fl (s / i) + 1 / 2" "fl (s / i) + 1 / 2 < of_int n + 1"
    unfolding N_def by linarith+
  then have "\<lfloor>fl (s / i) + 1 / 2\<rfloor> = n"
    by (intro floor_unique)
  then show "\<lfloor>fl (fl (of_int n * i) / i) + 1 / 2\<rfloor> = n"
    by (simp only: s_def)
qed

lemma snapTime_eval:
  assumes i: "fdiv 60 tmp = Some (fl (60 / tmp))"
      "fmul (fl (60 / tmp)) g = Some (fl (fl (60 / tmp) * g))"
      "1 / 512 \<le> fl (fl (60 / tmp) * g)"
    and q: "\<bar>t / fl (fl (60 / tmp) * g)\<bar> \<le> 2 ^ 54"
    and s: "\<bar>Math_round (fl (t / fl (fl (60 / tmp) * g))) * fl (fl (60 / tmp) * g)\<bar> \<le> 2 ^ 1023"
  shows "snapTime tmp g t = Some (snap_spec tmp g t)"
proof -
  define iv where "iv = fl (fl (60 / tmp) * g)"
  have iv0: "iv \<noteq> 0"
    using i(3) unfolding iv_def by auto
  have a: "fdiv t iv = Some (fl (t / iv))"
    using q iv0 by (simp add: fdiv_def js_num_small iv_def)
  have b: "fmul (Math_round (fl (t / iv))) iv = Some (fl (Math_round (fl (t / iv)) * iv))"
    using s by (simp add: fmul_def js_num_finite iv_def)
  show ?thesis
    unfolding snapTime_def snap_spec_def Let_def iv_def[symmetric]
    using i(1,2) a b by (simp add: iv_def)
qed

text \<open>
  C6 as stated fails: at tempo 100 with the grid fraction 0.25 of the timeline, the time
  649978828442403.5 snaps to 649978828442403.6, which snaps to 649978828442403.8.
\<close>

theorem snapTime_idempotent_counterexample:
  "(20::real) \<le> 100 \<and> (100::real) \<le> 300
   \<and> snapTime 100 (1 / 4) (1299957656884807 / 2) = Some (5199830627539229 / 2 ^ 3)
   \<and> snapTime 100 (1 / 4) (5199830627539229 / 2 ^ 3) = Some (2599915313769615 / 2 ^ 2)
   \<and> (5199830627539229 / 2 ^ 3 :: real) < 2599915313769615 / 2 ^ 2"
proof -
  define r :: real where "r = 5404319552844595 / 2 ^ 53"
  define i :: real where "i = 5404319552844595 / 2 ^ 55"
  define t :: real where "t = 1299957656884807 / 2"
  define q :: real where "q = 8666384379232047 / 2"
  define s :: real where "s = 5199830627539229 / 2 ^ 3"
  define q2 :: real where "q2 = 8666384379232049 / 2"
  define s2 :: real where "s2 = 2599915313769615 / 2 ^ 2"
  have f: "fl (3 / 5) = r" "fl (r / 4) = i" "fl (t / i) = q" "fl (s / i) = q2"
    unfolding r_def i_def t_def q_def s_def q2_def
    by (subst fl_eval[where e = "- 1"], simp_all add: round_even_def,
        subst fl_eval[where e = "- 3"], simp_all add: round_even_def,
        subst fl_eval[where e = 51], simp_all add: round_even_def,
        subst fl_eval[where e = 51], simp_all add: round_even_def)
  have m: "Math_round q = 4333192189616024" "Math_round q2 = 4333192189616025"
    by (simp_all add: Math_round_def q_def q2_def)
  have g: "fl (4333192189616024 * i) = s" "fl (4333192189616025 * i) = s2"
    unfolding i_def s_def s2_def
    by (subst fl_eval[where e = 49], simp_all add: round_even_def)+
  have n: "js_num (3 / 5) = Some r" "js_num (r / 4) = Some i" "js_num (4333192189616024 * i) = Some s"
     "js_num (4333192189616025 * i) = Some s2"
    by (rule js_num_fl_eq, rule f g, simp add: r_def i_def s_def s2_def)+
  have n2: "js_num (t / i) = Some q" "js_num (s / i) = Some q2"
    by (rule js_num_fl_eq, rule f, simp add: q_def q2_def)+
  have i0: "i \<noteq> 0"
    by (simp add: i_def)
  have "snapTime 100 (1 / 4) t = Some s"
    using i0 by (simp add: snapTime_def fdiv_def fmul_def n n2 m)
  moreover have "snapTime 100 (1 / 4) s = Some s2"
    using i0 by (simp add: snapTime_def fdiv_def fmul_def n n2 m)
  moreover have "s < s2"
    by (simp add: s_def s2_def)
  ultimately show ?thesis
    unfolding t_def s_def s2_def by simp
qed

text \<open>
  C6, amended. For a tempo in [20,300], a grid fraction between 1/64 and 64 beats and a
  time of at most \<open>2^40\<close> seconds in size, \<open>snapTime\<close> returns the snap of the spec,
  \<open>round(t / interval) * interval\<close> with \<open>interval = (60 / tempo) * gridFraction\<close>
  computed in double arithmetic, and snapping the result again returns it unchanged.
\<close>

theorem snapTime_idempotent:
  assumes "20 \<le> tmp" and "tmp \<le> 300" and "1 / 64 \<le> g" and "g \<le> 64"
    and "\<bar>t\<bar> \<le> 2 ^ 40"
  shows "snapTime tmp g t = Some (snap_spec tmp g t)
         \<and> snapTime tmp g (snap_spec tmp g t) = Some (snap_spec tmp g t)
         \<and> snap_spec tmp g (snap_spec tmp g t) = snap_spec tmp g t"
proof -
  note iv = snap_interval[OF assms(1-4)]
  define i where "i = fl (fl (60 / tmp) * g)"
  define n where "n = \<lfloor>fl (t / i) + 1 / 2\<rfloor>"
  have i0: "0 < i" and i1: "1 / 512 \<le> i" and i2: "i \<le> 256"
    using iv(3,4) by (simp_all add: i_def)
  have "\<bar>t / i\<bar> = \<bar>t\<bar> / i"
    using i0 by (simp add: abs_divide)
  also have "\<dots> \<le> \<bar>t\<bar> / (1 / 512)"
    using i1 by (intro divide_left_mono) simp_all
  also have "\<dots> \<le> 2 ^ 40 / (1 / 512)"
    using assms(5) by (intro divide_right_mono) simp_all
  finally have ti: "\<bar>t / i\<bar> \<le> 2 ^ 49"
    by simp
  then have q: "\<bar>fl (t / i)\<bar> \<le> 2 ^ 49"
    by (rule fl_abs_le) (rule fl_pow2, simp)
  have "of_int n \<le> fl (t / i) + 1 / 2" "fl (t / i) + 1 / 2 < of_int n + 1"
    unfolding n_def by linarith+
  then have "of_int n \<le> (2::real) ^ 49 + 1 / 2" "- ((2::real) ^ 49) - 1 / 2 < of_int n"
    using q by linarith+
  then have "of_int n < (of_int (2 ^ 50) :: real)" "(of_int (- (2 ^ 50)) :: real) < of_int n"
    by simp_all
  then have "n < 2 ^ 50" "- (2 ^ 50) < n"
    by (simp_all only: of_int_less_iff)
  then have nb: "\<bar>n\<bar> \<le> 2 ^ 50"
    by simp
  note st = snap_round_stable[OF i1 i2 nb]
  have sp: "snap_spec tmp g t = fl (of_int n * i)"
    by (simp add: snap_spec_def Let_def Math_round_def n_def i_def)
  have "(2::real) ^ 49 \<le> 2 ^ 54"
    by simp
  with ti have ti': "\<bar>t / i\<bar> \<le> 2 ^ 54"
    by linarith
  have a: "snapTime tmp g t = Some (snap_spec tmp g t)"
    using iv(1,2,3) ti' st(2)
    unfolding i_def n_def Math_round_def[symmetric] by (rule snapTime_eval)
  have r: "Math_round (fl (fl (of_int n * i) / i)) = of_int n"
    unfolding Math_round_def st(1) ..
  have sp2: "snap_spec tmp g (fl (of_int n * i)) = fl (of_int n * i)"
    by (simp add: snap_spec_def Let_def i_def[symmetric] r)
  have b: "snapTime tmp g (fl (of_int n * i)) = Some (snap_spec tmp g (fl (of_int n * i)))"
    using iv(1,2,3)
  proof (rule snapTime_eval)
    show "\<bar>fl (of_int n * i) / fl (fl (60 / tmp) * g)\<bar> \<le> 2 ^ 54"
      using st(3) by (simp only: i_def)
    show "\<bar>Math_round (fl (fl (of_int n * i) / fl (fl (60 / tmp) * g))) * fl (fl (60 / tmp) * g)\<bar>
            \<le> 2 ^ 1023"
      using st(2) unfolding i_def[symmetric] r .
  qed
  show ?thesis
    using a b by (simp only: sp sp2)
qed

lemma fl_halves: "fl (1 / 2) = 1 / 2" "fl (11 / 2) = 11 / 2" "fl (3 / 4) = 3 / 4"
  using fl_repr[of 1 "- 1"] fl_repr[of 11 "- 1"] fl_repr[of 3 "- 2"]
  by (simp_all add: power_int_minus_divide)

theorem snapTime_idempotent_witness:
  "(20::real) \<le> 120 \<and> (120::real) \<le> 300 \<and> (1 / 64 :: real) \<le> 1 / 4 \<and> (1 / 4 :: real) \<le> 64
   \<and> \<bar>11 / 16 :: real\<bar> \<le> 2 ^ 40
   \<and> snap_spec 120 (1 / 4) (11 / 16) = 3 / 4
   \<and> snapTime 120 (1 / 4) (11 / 16) = Some (3 / 4)
   \<and> snapTime 120 (1 / 4) (3 / 4) = Some (3 / 4)"
proof -
  have e: "snap_spec 120 (1 / 4) (11 / 16) = 3 / 4"
    by (simp add: snap_spec_def Math_round_def fl_halves fl_dyadic fl_numeral)
  have "snapTime 120 (1 / 4) (11 / 16) = Some (3 / 4)
        \<and> snapTime 120 (1 / 4) (3 / 4) = Some (3 / 4)"
    using snapTime_idempotent [of 120 "1 / 4" "11 / 16"] unfolding e by simp
  then show ?thesis
    using e by simp
qed

section \<open>Time display: results\<close>

text \<open>
  Strings are compared as JavaScript compares them: lexicographically, character by
  character, by character code. First, decimal digits and zero padding.
\<close>

lemma of_char_digit_char: "d < 10 \<Longrightarrow> of_char (digit_char d) = (48 + d :: nat)"
proof -
  assume "d < 10"
  then have "d \<in> {0, 1, 2, 3, 4, 5, 6, 7, 8, 9}"
    by auto
  then show ?thesis
    by (auto simp: digit_char_def)
qed

lemma digit_char_less: "a < 10 \<Longrightarrow> b < 10 \<Longrightarrow> (digit_char a < digit_char b) = (a < b)"
  by (simp add: less_char_def of_char_digit_char)

lemma digit_char_eq:
  assumes "a < 10" and "b < 10"
  shows "(digit_char a = digit_char b) = (a = b)"
proof (rule iffI)
  assume "digit_char a = digit_char b"
  then have "(of_char (digit_char a) :: nat) = of_char (digit_char b)"
    by simp
  then have "(48 + a :: nat) = 48 + b"
    using assms by (simp only: of_char_digit_char)
  then show "a = b" by simp
next
  assume "a = b"
  then show "digit_char a = digit_char b" by simp
qed

lemma split10:
  assumes "(a::nat) < b"
  shows "a div 10 < b div 10 \<or> (a div 10 = b div 10 \<and> a mod 10 < b mod 10)"
proof (cases "a div 10 = b div 10")
  case True
  have "10 * (a div 10) + a mod 10 < 10 * (b div 10) + b mod 10"
    using assms by (simp only: mult_div_mod_eq)
  then have "a mod 10 < b mod 10"
    by (simp only: True add_less_cancel_left)
  with True show ?thesis by blast
next
  case False
  moreover have "a div 10 \<le> b div 10"
    using assms by (intro div_le_mono) simp
  ultimately show ?thesis by (simp add: le_neq_implies_less)
qed

lemma div10_div10: "(n::nat) div 10 div 10 = n div 100"
  by (simp add: div_mult2_eq[symmetric])

lemma split100:
  assumes "(a::nat) < b"
  shows "a div 100 < b div 100
        \<or> a div 100 = b div 100 \<and> (a div 10 mod 10 < b div 10 mod 10
            \<or> a div 10 mod 10 = b div 10 mod 10 \<and> a mod 10 < b mod 10)"
proof -
  from split10[OF assms] show ?thesis
  proof
    assume "a div 10 < b div 10"
    from split10[OF this] show ?thesis
      by (simp only: div10_div10) blast
  next
    assume h: "a div 10 = b div 10 \<and> a mod 10 < b mod 10"
    then have "a div 10 div 10 = b div 10 div 10"
      by simp
    then have "a div 100 = b div 100"
      by (simp only: div10_div10)
    with h show ?thesis by simp
  qed
qed

lemma String_nat_1: "n < 10 \<Longrightarrow> String_nat n = [digit_char n]"
  by (simp add: String_nat.simps)

lemma String_nat_2:
  "10 \<le> n \<Longrightarrow> n < 100 \<Longrightarrow> String_nat n = [digit_char (n div 10), digit_char (n mod 10)]"
  by (subst String_nat.simps) (simp add: String_nat_1)

lemma String_nat_3:
  assumes "100 \<le> n" and "n < 1000"
  shows "String_nat n =
           [digit_char (n div 100), digit_char (n div 10 mod 10), digit_char (n mod 10)]"
proof -
  have "10 \<le> n div 10" and "n div 10 < 100"
    using assms by simp_all
  then have "String_nat (n div 10) = [digit_char (n div 100), digit_char (n div 10 mod 10)]"
    by (simp only: String_nat_2 div10_div10)
  moreover have "String_nat n = String_nat (n div 10) @ [digit_char (n mod 10)]"
    using assms by (subst String_nat.simps) simp
  ultimately show ?thesis
    by simp
qed

lemma pad3:
  assumes "n < 1000"
  shows "padStart 3 CHR ''0'' (String_nat n) =
         [digit_char (n div 100), digit_char (n div 10 mod 10), digit_char (n mod 10)]"
proof -
  have z: "digit_char 0 = CHR ''0''"
    by (simp add: digit_char_def)
  consider "n < 10" | "10 \<le> n" "n < 100" | "100 \<le> n"
    by linarith
  then show ?thesis
  proof cases
    case 1
    then show ?thesis by (simp add: padStart_def String_nat_1 z numeral_2_eq_2)
  next
    case 2
    then show ?thesis by (simp add: padStart_def String_nat_2 z)
  next
    case 3
    then show ?thesis using assms by (simp add: padStart_def String_nat_3)
  qed
qed

lemma pad2: "n < 10 \<Longrightarrow> padStart 2 CHR ''0'' (String_nat n) = [CHR ''0'', digit_char n]"
  by (simp add: padStart_def String_nat_1)

lemma pad3_less:
  assumes "a < b" "b < 1000"
  shows "padStart 3 CHR ''0'' (String_nat a) < padStart 3 CHR ''0'' (String_nat b)"
proof -
  have "a div 100 < b div 100
        \<or> a div 100 = b div 100 \<and> (a div 10 mod 10 < b div 10 mod 10
            \<or> a div 10 mod 10 = b div 10 mod 10 \<and> a mod 10 < b mod 10)"
    using assms(1) by (rule split100)
  moreover have "a div 100 < 10" "b div 100 < 10"
    using assms by simp_all
  ultimately show ?thesis
    using assms by (simp add: pad3 digit_char_less digit_char_eq)
qed

lemma pad2_less:
  assumes "a < b" "b < 10"
  shows "padStart 2 CHR ''0'' (String_nat a) < padStart 2 CHR ''0'' (String_nat b)"
  using assms by (simp add: pad2 digit_char_less)

lemma lex_append:
  fixes xs ys :: "'a::linorder list"
  assumes "length xs = length ys"
  shows "(xs @ us \<le> ys @ vs) = (xs < ys \<or> xs = ys \<and> us \<le> vs)"
  using assms by (induction xs ys rule: list_induct2) auto

lemma lex_append_same:
  fixes xs :: "'a::linorder list"
  shows "(xs @ us \<le> xs @ vs) = (us \<le> vs)"
  by (simp add: lex_append)

lemma fmt_le:
  assumes ord: "A1 < A2 \<or> A1 = A2 \<and> (B1 < B2 \<or> B1 = B2 \<and> C1 \<le> C2)"
    and bnd: "A1 < 1000" "A2 < 1000" "B1 < 10" "B2 < 10" "C1 < 1000" "C2 < 1000"
  shows "padStart 3 CHR ''0'' (String_nat A1) @ '':'' @ padStart 2 CHR ''0'' (String_nat B1)
           @ '':'' @ padStart 3 CHR ''0'' (String_nat C1)
         \<le> padStart 3 CHR ''0'' (String_nat A2) @ '':'' @ padStart 2 CHR ''0'' (String_nat B2)
           @ '':'' @ padStart 3 CHR ''0'' (String_nat C2)"
proof -
  let ?p3 = "\<lambda>n. padStart 3 CHR ''0'' (String_nat n)"
  let ?p2 = "\<lambda>n. padStart 2 CHR ''0'' (String_nat n)"
  have lenA: "length (?p3 A1) = length (?p3 A2)"
    using bnd by (simp add: pad3)
  have lenB: "length (?p2 B1) = length (?p2 B2)"
    using bnd by (simp add: pad2)
  have tail: "'':'' @ ?p3 C1 \<le> '':'' @ ?p3 C2" if "C1 \<le> C2"
  proof (cases "C1 = C2")
    case True
    then show ?thesis by simp
  next
    case False
    with that have "C1 < C2" by simp
    then have "?p3 C1 < ?p3 C2"
      using bnd by (intro pad3_less)
    then show ?thesis by simp
  qed
  have mid: "?p2 B1 @ '':'' @ ?p3 C1 \<le> ?p2 B2 @ '':'' @ ?p3 C2"
    if "B1 < B2 \<or> B1 = B2 \<and> C1 \<le> C2"
    using that
  proof
    assume "B1 < B2"
    then have "?p2 B1 < ?p2 B2"
      using bnd by (intro pad2_less)
    then show ?thesis
      by (simp add: lex_append[OF lenB])
  next
    assume "B1 = B2 \<and> C1 \<le> C2"
    then show ?thesis
      using tail by (simp add: lex_append_same)
  qed
  from ord show ?thesis
  proof
    assume "A1 < A2"
    then have "?p3 A1 < ?p3 A2"
      using bnd by (intro pad3_less)
    then show ?thesis
      by (simp add: lex_append[OF lenA])
  next
    assume h: "A1 = A2 \<and> (B1 < B2 \<or> B1 = B2 \<and> C1 \<le> C2)"
    then have "'':'' @ ?p2 B1 @ '':'' @ ?p3 C1 \<le> '':'' @ ?p2 B2 @ '':'' @ ?p3 C2"
      using mid by simp
    with h show ?thesis
      by (simp add: lex_append_same)
  qed
qed

lemma js_rem_nonneg:
  assumes "0 \<le> x" and "0 < y"
  shows "js_rem x y = x - y * of_int \<lfloor>x / y\<rfloor>"
proof -
  have "\<not> x / y < 0"
    using assms by (simp add: not_less)
  then show ?thesis
    by (simp only: js_rem_def if_False)
qed

lemma String_int_nonneg: "0 \<le> i \<Longrightarrow> String_int i = String_nat (nat i)"
  by (simp add: String_int_def)

lemma beats_range:
  assumes "0 \<le> (b::real)"
  shows "0 \<le> \<lfloor>b\<rfloor> - 4 * \<lfloor>b / 4\<rfloor>" and "\<lfloor>b\<rfloor> - 4 * \<lfloor>b / 4\<rfloor> \<le> 3"
proof -
  have "of_int \<lfloor>b / 4\<rfloor> \<le> b / 4" and "b / 4 < of_int \<lfloor>b / 4\<rfloor> + 1"
    by linarith+
  then have "4 * of_int \<lfloor>b / 4\<rfloor> \<le> b" and "b < 4 * of_int \<lfloor>b / 4\<rfloor> + 4"
    by linarith+
  then have "of_int (4 * \<lfloor>b / 4\<rfloor>) \<le> b" and "b < of_int (4 * \<lfloor>b / 4\<rfloor> + 4)"
    by simp_all
  then have "4 * \<lfloor>b / 4\<rfloor> \<le> \<lfloor>b\<rfloor>" and "\<lfloor>b\<rfloor> < 4 * \<lfloor>b / 4\<rfloor> + 4"
    by (simp_all only: le_floor_iff floor_less_iff)
  then show "0 \<le> \<lfloor>b\<rfloor> - 4 * \<lfloor>b / 4\<rfloor>" and "\<lfloor>b\<rfloor> - 4 * \<lfloor>b / 4\<rfloor> \<le> 3"
    by linarith+
qed

lemma double_half_grid:
  assumes "fl b = b" and "1 / 2 \<le> b"
  shows "\<exists>w::int. b = of_int w / 2 ^ 53"
proof -
  obtain m k where b: "b = of_int m * 2 powi k" and m: "\<bar>m\<bar> < 2 ^ 53" and k: "- 1074 \<le> k"
    using fl_decomp[of b] assms(1) by auto
  have "\<not> k < - 53"
  proof
    assume "k < - 53"
    then have pk: "(2::real) powi k \<le> 2 powi (- 54)"
      by (intro power_int_increasing) simp_all
    have lt: "(of_int m :: real) < of_int (2 ^ 53)"
      using m by (simp only: of_int_less_iff)
    have p0: "0 < (2::real) powi k"
      by simp
    have "of_int m * (2::real) powi k < of_int (2 ^ 53) * 2 powi k"
      using lt p0 by (rule mult_strict_right_mono)
    also have "\<dots> \<le> of_int (2 ^ 53) * 2 powi (- 54)"
      using pk by (intro mult_left_mono) simp_all
    also have "of_int (2 ^ 53) * (2::real) powi (- 54) = 1 / 2"
      by (simp add: power_int_minus_divide)
    finally show False
      using assms(2) b by simp
  qed
  then have j: "0 \<le> k + 53"
    by simp
  define j where "j = nat (k + 53)"
  have "(2::real) powi k = 2 powi (int j - 53)"
    using j by (simp add: j_def)
  also have "\<dots> = 2 ^ j / 2 ^ 53"
    by (simp add: pow2_diff)
  finally have "b = of_int (m * 2 ^ j) / 2 ^ 53"
    by (simp add: b)
  then show ?thesis
    by blast
qed

lemma fl_half: "fl (1 / 2) = 1 / 2"
  using fl_repr[of 1 "- 1"] by (simp add: power_int_minus_divide)

lemma fl_quarter_floor:
  assumes "fl b = b" and "0 \<le> b"
  shows "\<lfloor>fl (b / 4)\<rfloor> = \<lfloor>b / 4\<rfloor>"
proof -
  obtain m k where b: "b = of_int m * 2 powi k" and m: "\<bar>m\<bar> < 2 ^ 53" and k: "- 1074 \<le> k"
    using fl_decomp[of b] assms(1) by auto
  show ?thesis
  proof (cases "- 1072 \<le> k")
    case True
    have "b / 4 = of_int m * (2 powi k / 2 powi 2)"
      by (simp add: b)
    also have "2 powi k / 2 powi 2 = (2::real) powi (k - 2)"
      by (rule pow2_diff[symmetric])
    finally have "b / 4 = of_int m * 2 powi (k - 2)" .
    moreover have "fl (of_int m * 2 powi (k - 2)) = of_int m * 2 powi (k - 2)"
      using m True by (intro fl_repr) simp_all
    ultimately show ?thesis
      by simp
  next
    case False
    then have pk: "(2::real) powi k \<le> 2 powi (- 53)"
      by (intro power_int_increasing) simp_all
    have lt: "(of_int m :: real) < of_int (2 ^ 53)"
      using m by (simp only: of_int_less_iff)
    have p0: "0 < (2::real) powi k"
      by simp
    have "of_int m * (2::real) powi k < of_int (2 ^ 53) * 2 powi k"
      using lt p0 by (rule mult_strict_right_mono)
    also have "\<dots> \<le> of_int (2 ^ 53) * 2 powi (- 53)"
      using pk by (intro mult_left_mono) simp_all
    also have "of_int (2 ^ 53) * (2::real) powi (- 53) = 1"
      by (simp add: power_int_minus_divide)
    finally have b1: "b < 1"
      by (simp only: b)
    then have "b / 4 \<le> 1 / 2"
      by simp
    then have "fl (b / 4) \<le> fl (1 / 2)"
      by (rule fl_mono)
    then have "fl (b / 4) < 1"
      by (simp add: fl_half)
    moreover have "0 \<le> fl (b / 4)"
      using assms(2) by (intro fl_nonneg) simp
    ultimately have "\<lfloor>fl (b / 4)\<rfloor> = 0"
      by (intro floor_unique) simp_all
    moreover have "\<lfloor>b / 4\<rfloor> = 0"
      using b1 assms(2) by (intro floor_unique) simp_all
    ultimately show ?thesis
      by simp
  qed
qed

lemma fl_below_1000: "fl (1000 - 1000 / 2 ^ 53) = 1000 - 1 / 2 ^ 43"
  by (subst fl_eval[where e = 9]) (simp_all add: round_even_def)

lemma ticks_range:
  assumes "fl b = b" and "0 \<le> b"
  shows "0 \<le> \<lfloor>fl ((b - of_int \<lfloor>b\<rfloor>) * 1000)\<rfloor>"
    and "\<lfloor>fl ((b - of_int \<lfloor>b\<rfloor>) * 1000)\<rfloor> < 1000"
proof -
  define f where "f = b - of_int \<lfloor>b\<rfloor>"
  have f: "0 \<le> f" "f < 1"
    unfolding f_def by linarith+
  have "0 \<le> fl (f * 1000)"
    using f(1) by (intro fl_nonneg) simp
  then show "0 \<le> \<lfloor>fl ((b - of_int \<lfloor>b\<rfloor>) * 1000)\<rfloor>"
    by (simp add: f_def)
  have "f \<le> 1 - 1 / 2 ^ 53"
  proof (cases "1 / 2 \<le> b")
    case True
    then obtain w :: int where w: "b = of_int w / 2 ^ 53"
      using double_half_grid[OF assms(1)] by blast
    have "f = of_int (w - \<lfloor>b\<rfloor> * 2 ^ 53) / 2 ^ 53"
      by (simp add: f_def w diff_divide_distrib)
    then obtain v :: int where v: "f = of_int v / 2 ^ 53"
      by blast
    have "of_int v < (2::real) ^ 53"
      using f(2) by (simp add: v)
    then have "v < 2 ^ 53"
      by (simp only: of_int_less_iff[symmetric, where 'a = real]) simp
    then have "v \<le> 2 ^ 53 - 1"
      by simp
    then have "(of_int v :: real) \<le> of_int (2 ^ 53 - 1)"
      by (simp only: of_int_le_iff)
    then have "of_int v / (2::real) ^ 53 \<le> of_int (2 ^ 53 - 1) / 2 ^ 53"
      by (intro divide_right_mono) simp_all
    then show ?thesis
      by (simp add: v diff_divide_distrib)
  next
    case False
    then have "b < 1"
      by simp
    then have "\<lfloor>b\<rfloor> = 0"
      using assms(2) by (intro floor_unique) simp_all
    then have "f = b"
      by (simp add: f_def)
    then show ?thesis
      using False by simp
  qed
  then have "f * 1000 \<le> 1000 - 1000 / 2 ^ 53"
    by simp
  then have "fl (f * 1000) \<le> fl (1000 - 1000 / 2 ^ 53)"
    by (rule fl_mono)
  then have "fl (f * 1000) \<le> 1000 - 1 / 2 ^ 43"
    by (simp only: fl_below_1000)
  then have "fl (f * 1000) < 1000"
    by simp
  then show "\<lfloor>fl ((b - of_int \<lfloor>b\<rfloor>) * 1000)\<rfloor> < 1000"
    by (simp add: f_def floor_less_iff)
qed

lemma js_num_of_int: "\<bar>n\<bar> < 2 ^ 53 \<Longrightarrow> js_num (of_int n) = Some (of_int n)"
proof -
  assume n: "\<bar>n\<bar> < 2 ^ 53"
  then have "(of_int \<bar>n\<bar> :: real) \<le> of_int (2 ^ 54)"
    by (simp only: of_int_le_iff) simp
  then have "\<bar>of_int n :: real\<bar> \<le> 2 ^ 54"
    by simp
  then show ?thesis
    using n by (simp only: js_num_small fl_of_int)
qed

lemma String_num_of_int: "\<bar>n\<bar> < 2 ^ 53 \<Longrightarrow> String_num (of_int n) = Some (String_int n)"
proof -
  assume n: "\<bar>n\<bar> < 2 ^ 53"
  have "(2::int) ^ 53 \<le> 10 ^ 21"
    by simp
  with n have "\<bar>n\<bar> < 10 ^ 21"
    by linarith
  then have "(of_int \<bar>n\<bar> :: real) < of_int (10 ^ 21)"
    by (simp only: of_int_less_iff)
  then have "\<bar>of_int n :: real\<bar> < 10 ^ 21"
    by simp
  then show ?thesis
    by (simp add: String_num_def)
qed

lemma totalBeats_SomeD:
  assumes "totalBeats tmp seconds = Some b"
  shows "fdiv tmp 60 = Some (fl (tmp / 60))" and "b = fl (seconds * fl (tmp / 60))"
  using assms by (auto simp: totalBeats_def dest!: fdiv_SomeD fmul_SomeD split: Option.bind_splits)

lemma formatTime_parts:
  assumes tb: "totalBeats tmp seconds = Some b" and b0: "0 \<le> b" and b1: "b < 2 ^ 50"
  shows "formatTime tmp seconds =
           Some (padStart 3 CHR ''0'' (String_nat (fmt_bars b)) @ '':''
                 @ padStart 2 CHR ''0'' (String_nat (fmt_beats b)) @ '':''
                 @ padStart 3 CHR ''0'' (String_nat (fmt_ticks b)))"
proof -
  have bb: "fl b = b"
    unfolding totalBeats_SomeD(2)[OF tb] by (rule fl_fl)
  have "\<bar>b / 4\<bar> \<le> 2 ^ 54"
    using b0 b1 by simp
  then have q: "fdiv b 4 = Some (fl (b / 4))"
    by (simp add: fdiv_def js_num_small)
  have fq: "\<lfloor>fl (b / 4)\<rfloor> = \<lfloor>b / 4\<rfloor>"
    using bb b0 by (rule fl_quarter_floor)
  have k0: "0 \<le> \<lfloor>b / 4\<rfloor>"
    using b0 by simp
  have "b / 4 < of_int (2 ^ 48)"
    using b1 by simp
  then have k1: "\<lfloor>b / 4\<rfloor> < 2 ^ 48"
    by (simp only: floor_less_iff)
  have "\<bar>\<lfloor>b / 4\<rfloor> + 1\<bar> < 2 ^ 53"
    using k0 k1 by simp
  note bars_n = js_num_of_int[OF this] String_num_of_int[OF this]
  have bars: "fadd (Math_floor (fl (b / 4))) 1 = Some (of_int (\<lfloor>b / 4\<rfloor> + 1))"
    using bars_n(1) by (simp add: fadd_def Math_floor_def fq)
  have "js_rem b 4 = b - of_int (4 * \<lfloor>b / 4\<rfloor>)"
    using b0 by (simp add: js_rem_nonneg)
  then have r4: "\<lfloor>js_rem b 4\<rfloor> = \<lfloor>b\<rfloor> - 4 * \<lfloor>b / 4\<rfloor>"
    by (simp only: floor_diff_of_int)
  note br = beats_range[OF b0]
  have "\<bar>\<lfloor>b\<rfloor> - 4 * \<lfloor>b / 4\<rfloor> + 1\<bar> < 2 ^ 53"
    using br by simp
  note beats_n = js_num_of_int[OF this] String_num_of_int[OF this]
  have beats: "fadd (Math_floor (js_rem b 4)) 1 = Some (of_int (\<lfloor>b\<rfloor> - 4 * \<lfloor>b / 4\<rfloor> + 1))"
    using beats_n(1) by (simp add: fadd_def Math_floor_def r4)
  have r1: "js_rem b 1 = b - of_int \<lfloor>b\<rfloor>"
    using b0 by (simp add: js_rem_nonneg)
  have "0 \<le> b - of_int \<lfloor>b\<rfloor>" "b - of_int \<lfloor>b\<rfloor> < 1"
    by linarith+
  then have "\<bar>(b - of_int \<lfloor>b\<rfloor>) * 1000\<bar> \<le> 2 ^ 54"
    by simp
  then have th: "fmul (js_rem b 1) 1000 = Some (fl ((b - of_int \<lfloor>b\<rfloor>) * 1000))"
    by (simp add: fmul_def r1 js_num_small)
  note tr = ticks_range[OF bb b0]
  have "\<bar>\<lfloor>fl ((b - of_int \<lfloor>b\<rfloor>) * 1000)\<rfloor>\<bar> < 2 ^ 53"
    using tr by simp
  note ticks_n = String_num_of_int[OF this]
  have s1: "String_int (\<lfloor>b / 4\<rfloor> + 1) = String_nat (fmt_bars b)"
    using k0 by (simp add: String_int_nonneg fmt_bars_def)
  have s2: "String_int (\<lfloor>b\<rfloor> - 4 * \<lfloor>b / 4\<rfloor> + 1) = String_nat (fmt_beats b)"
    using br by (simp add: String_int_nonneg fmt_beats_def)
  have s3: "String_int \<lfloor>fl ((b - of_int \<lfloor>b\<rfloor>) * 1000)\<rfloor> = String_nat (fmt_ticks b)"
    using tr by (simp add: String_int_nonneg fmt_ticks_def)
  have "formatTime tmp seconds = do {
      barsText \<leftarrow> String_num (of_int (\<lfloor>b / 4\<rfloor> + 1));
      beatsText \<leftarrow> String_num (of_int (\<lfloor>b\<rfloor> - 4 * \<lfloor>b / 4\<rfloor> + 1));
      ticksText \<leftarrow> String_num (Math_floor (fl ((b - of_int \<lfloor>b\<rfloor>) * 1000)));
      Some (padStart 3 CHR ''0'' barsText @ '':''
            @ padStart 2 CHR ''0'' beatsText @ '':''
            @ padStart 3 CHR ''0'' ticksText) }"
    by (simp only: formatTime_def tb Option.bind.simps q bars beats th Let_def)
  then show ?thesis
    by (simp only: Math_floor_def bars_n(2) beats_n(2) ticks_n s1 s2 s3 Option.bind.simps)
qed

lemma fmt_bounds:
  assumes "fl b = b" and "0 \<le> b"
  shows "fmt_beats b < 10" and "fmt_ticks b < 1000"
  using beats_range[OF assms(2)] ticks_range[OF assms]
  unfolding fmt_beats_def fmt_ticks_def
  by linarith+

lemma fmt_bars_bound:
  assumes "(b::real) < 3996"
  shows "fmt_bars b < 1000"
proof -
  have "b / 4 < of_int 999"
    using assms by simp
  then have "\<lfloor>b / 4\<rfloor> < 999"
    by (simp only: floor_less_iff)
  then show ?thesis
    unfolding fmt_bars_def by linarith
qed

lemma fmt_order:
  assumes "0 \<le> (b1::real)" and "b1 \<le> b2" and "fl b1 = b1" and "fl b2 = b2"
  shows "fmt_bars b1 < fmt_bars b2
         \<or> fmt_bars b1 = fmt_bars b2
            \<and> (fmt_beats b1 < fmt_beats b2
               \<or> fmt_beats b1 = fmt_beats b2 \<and> fmt_ticks b1 \<le> fmt_ticks b2)"
proof -
  have b2: "0 \<le> b2"
    using assms by simp
  have k: "\<lfloor>b1 / 4\<rfloor> \<le> \<lfloor>b2 / 4\<rfloor>"
    using assms by (intro floor_mono) simp
  have k0: "0 \<le> \<lfloor>b1 / 4\<rfloor>"
    using assms by simp
  have q: "\<lfloor>b1\<rfloor> \<le> \<lfloor>b2\<rfloor>"
    using assms by (intro floor_mono)
  have t: "\<lfloor>fl ((b1 - of_int \<lfloor>b1\<rfloor>) * 1000)\<rfloor> \<le> \<lfloor>fl ((b2 - of_int \<lfloor>b2\<rfloor>) * 1000)\<rfloor>"
    if "\<lfloor>b1\<rfloor> = \<lfloor>b2\<rfloor>"
    using assms that by (intro floor_mono fl_mono) simp
  note r1 = beats_range[OF assms(1)] and r2 = beats_range[OF b2]
    and t1 = ticks_range[OF assms(3,1)] and t2 = ticks_range[OF assms(4) b2]
  consider "\<lfloor>b1 / 4\<rfloor> < \<lfloor>b2 / 4\<rfloor>"
    | "\<lfloor>b1 / 4\<rfloor> = \<lfloor>b2 / 4\<rfloor>" "\<lfloor>b1\<rfloor> < \<lfloor>b2\<rfloor>"
    | "\<lfloor>b1 / 4\<rfloor> = \<lfloor>b2 / 4\<rfloor>" "\<lfloor>b1\<rfloor> = \<lfloor>b2\<rfloor>"
    using k q by linarith
  then show ?thesis
  proof cases
    case 1
    then have "fmt_bars b1 < fmt_bars b2"
      using k0 unfolding fmt_bars_def by linarith
    then show ?thesis by simp
  next
    case 2
    have "fmt_bars b1 = fmt_bars b2"
      unfolding fmt_bars_def by (simp only: 2(1))
    moreover have "fmt_beats b1 < fmt_beats b2"
      using 2 r1 r2 unfolding fmt_beats_def by linarith
    ultimately show ?thesis by simp
  next
    case 3
    have "fmt_bars b1 = fmt_bars b2"
      unfolding fmt_bars_def by (simp only: 3(1))
    moreover have "fmt_beats b1 = fmt_beats b2"
      unfolding fmt_beats_def by (simp only: 3)
    moreover have "fmt_ticks b1 \<le> fmt_ticks b2"
      using t[OF 3(2)] unfolding fmt_ticks_def by linarith
    ultimately show ?thesis by simp
  qed
qed

text \<open>
  The arithmetic is that of doubles: at tempo 21, 3 s are 1.0499999999999998 beats and
  print tick 049, where the exact product 1.05 would print 050.
\<close>

lemma formatTime_rounded: "formatTime 21 3 = Some ''001:02:049''"
proof -
  define r :: real where "r = 3152519739159347 / 2 ^ 53"
  define b :: real where "b = 1182194902184755 / 2 ^ 50"
  define x :: real where "x = 7036874417766375 / 2 ^ 47"
  have fr: "fl (7 / 20) = r"
    unfolding r_def by (subst fl_eval[where e = "- 2"]) (simp_all add: round_even_def)
  have fb: "fl (3 * r) = b"
    unfolding r_def b_def by (subst fl_eval[where e = 0]) (simp_all add: round_even_def)
  have fx: "fl x = x"
    unfolding x_def by (subst fl_eval[where e = 5]) (simp_all add: round_even_def)
  have n: "js_num (7 / 20) = Some r" "js_num (3 * r) = Some b"
    by (rule js_num_fl_eq, rule fr fb, simp add: r_def b_def)+
  have tb: "totalBeats 21 3 = Some b"
    by (simp add: totalBeats_def fdiv_def fmul_def n)
  have f1: "\<lfloor>b\<rfloor> = 1"
    unfolding b_def by (intro floor_unique) simp_all
  have f4: "\<lfloor>b / 4\<rfloor> = 0"
    unfolding b_def by (intro floor_unique) simp_all
  have "(b - 1) * 1000 = x"
    by (simp add: b_def x_def)
  then have "fl ((b - of_int \<lfloor>b\<rfloor>) * 1000) = x"
    using fx by (simp add: f1)
  moreover have "\<lfloor>x\<rfloor> = 49"
    unfolding x_def by (intro floor_unique) simp_all
  ultimately have t: "fmt_ticks b = 49"
    by (simp add: fmt_ticks_def)
  have p: "fmt_bars b = 1" "fmt_beats b = 2"
    by (simp_all add: fmt_bars_def fmt_beats_def f1 f4)
  have "0 \<le> b" "b < 2 ^ 50"
    by (simp_all add: b_def)
  from formatTime_parts[OF tb this] show ?thesis
    by (simp add: p t pad3 pad2 digit_char_def)
qed

text \<open>
  The hypothesis of the amended claim is on the computed \<open>totalBeats\<close>: at tempo 25, for
  the time 9590.4 s, the exact product is below 3996 and the computed one is 3996.
\<close>

lemma totalBeats_rounds_up:
  "totalBeats 25 (5272378157511475 / 2 ^ 39) = Some 3996
   \<and> 5272378157511475 / 2 ^ 39 * (25 / 60) < (3996::real)"
proof -
  define r :: real where "r = 7505999378950827 / 2 ^ 54"
  define s :: real where "s = 5272378157511475 / 2 ^ 39"
  have fr: "fl (5 / 12) = r"
    unfolding r_def by (subst fl_eval[where e = "- 2"]) (simp_all add: round_even_def)
  have fb: "fl (s * r) = 3996"
    unfolding r_def s_def by (subst fl_eval[where e = 11]) (simp_all add: round_even_def)
  have n: "js_num (5 / 12) = Some r" "js_num (s * r) = Some 3996"
    by (rule js_num_fl_eq, rule fr fb, simp add: r_def)+
  have "totalBeats 25 s = Some 3996"
    by (simp add: totalBeats_def fdiv_def fmul_def n)
  moreover have "s * (25 / 60) < 3996"
    by (simp add: s_def)
  ultimately show ?thesis
    unfolding s_def by blast
qed

lemma totalBeats_120: "numeral w * 2 < (2::int) ^ 53 \<Longrightarrow>
    totalBeats 120 (numeral w) = Some (numeral w * 2)"
proof -
  assume w: "numeral w * 2 < (2::int) ^ 53"
  have "\<bar>numeral w * 2 :: int\<bar> < 2 ^ 53"
    using w by simp
  from js_num_of_int[OF this] have "js_num (numeral w * 2) = Some (numeral w * 2)"
    by simp
  then show ?thesis
    by (simp add: totalBeats_def fdiv_def fmul_def js_num_numeral)
qed

text \<open>The spec's scenario: tempo 120, 0 s and 2 s.\<close>

lemma totalBeats_0: "totalBeats 120 0 = Some 0"
  by (simp add: totalBeats_def fdiv_def fmul_def js_num_numeral js_num_0)

lemma formatTime_scenario:
  "formatTime 120 0 = Some ''001:01:000'' \<and> formatTime 120 2 = Some ''002:01:000''"
proof -
  have "totalBeats 120 2 = Some 4"
    using totalBeats_120[of "num.Bit0 num.One"] by simp
  then show ?thesis
    using totalBeats_0
    by (simp add: formatTime_parts fmt_bars_def fmt_beats_def fmt_ticks_def pad3 pad2
        digit_char_def fl_0)
qed

lemma formatTime_1996: "formatTime 120 1996 = Some ''999:01:000''"
proof -
  have "totalBeats 120 1996 = Some 3992"
    using totalBeats_120[of "num.Bit0 (num.Bit0 (num.Bit1 (num.Bit1 (num.Bit0 (num.Bit0 (num.Bit1 (num.Bit1 (num.Bit1 (num.Bit1 num.One)))))))))"] by simp
  then show ?thesis
    by (simp add: formatTime_parts fmt_bars_def fmt_beats_def fmt_ticks_def pad3 pad2
        digit_char_def fl_0)
qed

lemma pad3_1000: "padStart 3 CHR ''0'' (String_nat 1000) = ''1000''"
  by (simp add: padStart_def String_nat.simps digit_char_def)

lemma formatTime_1998: "formatTime 120 1998 = Some ''1000:01:000''"
proof -
  have "totalBeats 120 1998 = Some 3996"
    by (simp add: totalBeats_def fdiv_def fmul_def js_num_numeral)
  then show ?thesis
    by (simp add: formatTime_parts fmt_bars_def fmt_beats_def fmt_ticks_def pad3 pad2
        digit_char_def pad3_1000 fl_0)
qed

text \<open>
  C7 as stated fails: the bar field is padded to three digits, not cut to them, so bar
  1000 prints four digits and \<open>''1000:...''\<close> sorts before \<open>''999:...''\<close>.
\<close>

theorem formatTime_mono_counterexample:
  "(20::real) \<le> 120 \<and> (120::real) \<le> 300 \<and> (0::real) \<le> 1996 \<and> (1996::real) \<le> 1998
   \<and> formatTime 120 1996 = Some ''999:01:000''
   \<and> formatTime 120 1998 = Some ''1000:01:000''
   \<and> \<not> ''999:01:000'' \<le> ''1000:01:000''"
  by (simp add: formatTime_1996 formatTime_1998)

text \<open>
  C7, amended. For a tempo in [20,300] and \<open>0 \<le> s1 \<le> s2\<close> with the later time still in
  a bar of at most three digits (the \<open>totalBeats\<close> that \<open>formatTime\<close> computes for \<open>s2\<close>
  is below 3996, bar 999 at most), \<open>formatTime\<close> returns a string for both times, the
  computed \<open>totalBeats\<close> are ordered, and the strings are ordered:
  \<open>formatTime(s1) \<le> formatTime(s2)\<close> in the lexicographic order of strings.
\<close>

theorem formatTime_mono:
  assumes "20 \<le> tmp" and "tmp \<le> 300" and "0 \<le> s1" and "s1 \<le> s2"
    and "totalBeats tmp s2 = Some b2" and "b2 < 3996"
  shows "\<exists>b1 f1 f2. totalBeats tmp s1 = Some b1 \<and> 0 \<le> b1 \<and> b1 \<le> b2
           \<and> formatTime tmp s1 = Some f1 \<and> formatTime tmp s2 = Some f2 \<and> f1 \<le> f2"
proof -
  note d = totalBeats_SomeD[OF assms(5)]
  define r where "r = fl (tmp / 60)"
  define b1 where "b1 = fl (s1 * r)"
  have r0: "0 \<le> r"
    unfolding r_def using assms(1) by (intro fl_nonneg) simp
  have b10: "0 \<le> b1"
    unfolding b1_def using assms(3) r0 by (intro fl_nonneg) simp
  have "s1 * r \<le> s2 * r"
    using assms(4) r0 by (rule mult_right_mono)
  then have b12: "b1 \<le> b2"
    unfolding b1_def d(2) r_def[symmetric] by (rule fl_mono)
  have b20: "0 \<le> b2"
    using b10 b12 by linarith
  have "\<bar>b1\<bar> \<le> 2 ^ 54"
    using b10 b12 assms(6) by simp
  then have "js_num (s1 * r) = Some b1"
    using b1_def[symmetric] by (intro js_num_fl_eq)
  then have tb1: "totalBeats tmp s1 = Some b1"
    by (simp add: totalBeats_def d(1) fmul_def r_def)
  have fb: "fl b1 = b1" "fl b2 = b2"
    unfolding b1_def d(2) by (rule fl_fl)+
  have lt: "b1 < 2 ^ 50" "b2 < 2 ^ 50" "b1 < 3996"
    using b12 assms(6) by simp_all
  have bars: "fmt_bars b1 < 1000" "fmt_bars b2 < 1000"
    using lt(3) assms(6) by (simp_all only: fmt_bars_bound)
  have "padStart 3 CHR ''0'' (String_nat (fmt_bars b1)) @ '':''
          @ padStart 2 CHR ''0'' (String_nat (fmt_beats b1)) @ '':''
          @ padStart 3 CHR ''0'' (String_nat (fmt_ticks b1))
        \<le> padStart 3 CHR ''0'' (String_nat (fmt_bars b2)) @ '':''
          @ padStart 2 CHR ''0'' (String_nat (fmt_beats b2)) @ '':''
          @ padStart 3 CHR ''0'' (String_nat (fmt_ticks b2))"
    using fmt_order[OF b10 b12 fb] bars fmt_bounds[OF fb(1) b10] fmt_bounds[OF fb(2) b20]
    by (intro fmt_le)
  then show ?thesis
    using formatTime_parts[OF tb1 b10 lt(1)] formatTime_parts[OF assms(5) b20 lt(2)]
      tb1 b10 b12
    by blast
qed

theorem formatTime_mono_witness:
  "(20::real) \<le> 120 \<and> (120::real) \<le> 300 \<and> (0::real) \<le> 0 \<and> (0::real) \<le> 2
   \<and> totalBeats 120 2 = Some 4 \<and> (4::real) < 3996
   \<and> formatTime 120 0 = Some ''001:01:000'' \<and> formatTime 120 2 = Some ''002:01:000''
   \<and> ''001:01:000'' \<le> ''002:01:000''"
proof -
  have t: "totalBeats 120 2 = Some 4"
    using totalBeats_120[of "num.Bit0 num.One"] by simp
  from formatTime_mono [of 120 0 2 4, OF _ _ _ _ t]
  obtain f1 f2 where "formatTime 120 0 = Some f1" "formatTime 120 2 = Some f2" "f1 \<le> f2"
    by auto
  then have "''001:01:000'' \<le> ''002:01:000''"
    using formatTime_scenario by simp
  then show ?thesis
    using t formatTime_scenario by simp
qed

end
